theory Spec2Isabelle
  imports Main "HOL-Library.Word"
begin

section \<open>Blame records and line lookup\<close>

text \<open>
  \<^verbatim>\<open>type LineBlame struct { Author string; Timestamp int64 }\<close> and
  \<^verbatim>\<open>type GitBlame struct { blames []*LineBlame }\<close>.
  Strings are byte sequences, as in Go. The pointers stored in \<open>blames\<close> are never nil
  (the parser only appends records it has allocated), so the slice is a list of records.
\<close>

record LineBlame =
  Author :: string
  Timestamp :: "64 word"

record GitBlame =
  blames :: "LineBlame list"

text \<open>
  Errors as values: the error of \<open>BlameLine\<close>, a run-time panic (with its message), and a
  failure reported by the operating system or by the blame tool.
\<close>

datatype error = LineOutOfRange | Panic string | OsError string

text \<open>
  \<^verbatim>\<open>func (b *GitBlame) BlameLine(line int) (*LineBlame, error)\<close>.
  Go's \<open>int\<close> is taken as the 64-bit signed integer of the supported platforms:
  \<open>line - 1\<close> wraps around, and both comparisons are signed. \<open>len(b.blames)\<close> is itself
  an \<open>int\<close>, hence below \<open>2 ^ 63\<close>; it is compared as a mathematical integer.
\<close>

definition BlameLine :: "GitBlame \<Rightarrow> 64 word \<Rightarrow> error + LineBlame" where
  "BlameLine b line =
     (let line' = line - 1
      in if sint line' < 0 \<or> int (length (blames b)) \<le> sint line'
         then Inl LineOutOfRange
         else Inr (blames b ! nat (sint line')))"

section \<open>Directory walker callback\<close>

text \<open>
  The kinds of entry \<^verbatim>\<open>fs.DirEntry.Type()\<close> distinguishes: no type bit set is a regular
  file; the others are the type bits of \<^verbatim>\<open>fs.ModeType\<close>.
\<close>

datatype entry_type =
  TRegular | TDir | TSymlink | TNamedPipe | TSocket | TDevice | TCharDevice | TIrregular

record DirEntry =
  entry_name :: string
  entry_type :: entry_type

definition IsDir :: "DirEntry \<Rightarrow> bool" where
  "IsDir d = (entry_type d = TDir)"

definition IsRegular :: "DirEntry \<Rightarrow> bool" where
  "IsRegular d = (entry_type d = TRegular)"

text \<open>
  \<^verbatim>\<open>type searchJob struct { path string; regex *regexp.Regexp }\<close>, polymorphic in the
  representation of the compiled pattern.
\<close>

record 'r searchJob =
  path :: string
  regex :: 'r

text \<open>
  The walker's view of the shared state: the jobs sent on the channel so far, in order, and
  the number of \<^verbatim>\<open>wg.Add(1)\<close> calls.
\<close>

record 'r walk_state =
  searchJobs :: "'r searchJob list"
  wg_added :: nat

text \<open>
  \<^verbatim>\<open>func walk(path, d, err, regex, searchJobs, wg) error\<close>: the error handed in by
  \<^verbatim>\<open>filepath.WalkDir\<close> is returned as it is; otherwise every entry that is not a
  directory is counted and sent.
\<close>

definition walk ::
  "string \<Rightarrow> DirEntry \<Rightarrow> error option \<Rightarrow> 'r \<Rightarrow> 'r walk_state \<Rightarrow> error option \<times> 'r walk_state" where
  "walk p d err rx st =
     (case err of
        Some e \<Rightarrow> (Some e, st)
      | None \<Rightarrow>
          if \<not> IsDir d
          then (None, st\<lparr>wg_added := wg_added st + 1,
                         searchJobs := searchJobs st @ [\<lparr>path = p, regex = rx\<rparr>]\<rparr>)
          else (None, st))"

text \<open>The jobs a call of \<open>walk\<close> adds to the channel.\<close>

definition enqueued :: "string \<Rightarrow> DirEntry \<Rightarrow> error option \<Rightarrow> 'r \<Rightarrow> 'r walk_state \<Rightarrow> nat" where
  "enqueued p d err rx st = length (searchJobs (snd (walk p d err rx st))) - length (searchJobs st)"

section \<open>Strings\<close>

text \<open>
  Go strings are byte sequences holding UTF-8. \<^verbatim>\<open>utf8.DecodeRuneInString\<close> returns the
  code point at the head of a string and its width in bytes; a byte that does not start a
  well-formed sequence decodes as \<open>RuneError\<close> with width 1.
\<close>

definition RuneError :: nat where
  "RuneError = 0xFFFD"

fun DecodeRune :: "string \<Rightarrow> nat \<times> nat" where
  "DecodeRune [] = (RuneError, 0)"
| "DecodeRune (c0 # cs) =
     (let s0 = (of_char c0 :: nat) in
      if s0 < 0x80 then (s0, 1)
      else if s0 < 0xC2 \<or> 0xF4 < s0 then (RuneError, 1)
      else
        let sz = (if s0 < 0xE0 then 2 else if s0 < 0xF0 then 3 else (4::nat));
            lo = (if s0 = 0xE0 then 0xA0 else if s0 = 0xF0 then 0x90 else (0x80::nat));
            hi = (if s0 = 0xED then 0x9F else if s0 = 0xF4 then 0x8F else (0xBF::nat))
        in
          if Suc (length cs) < sz then (RuneError, 1)
          else
            let s1 = (of_char (cs ! 0) :: nat) in
            if s1 < lo \<or> hi < s1 then (RuneError, 1)
            else if sz \<le> 2 then ((s0 mod 32) * 64 + s1 mod 64, 2)
            else
              let s2 = (of_char (cs ! 1) :: nat) in
              if s2 < 0x80 \<or> 0xBF < s2 then (RuneError, 1)
              else if sz \<le> 3 then ((s0 mod 16) * 4096 + (s1 mod 64) * 64 + s2 mod 64, 3)
              else
                let s3 = (of_char (cs ! 2) :: nat) in
                if s3 < 0x80 \<or> 0xBF < s3 then (RuneError, 1)
                else ((s0 mod 8) * 262144 + (s1 mod 64) * 4096 + (s2 mod 64) * 64 + s3 mod 64, 4))"

lemma DecodeRune_width: "1 \<le> snd (DecodeRune (c # cs))"
  by (simp add: Let_def)

text \<open>\<^verbatim>\<open>unicode.IsSpace\<close>: the Latin-1 white space, then the rest of \<open>White_Space\<close>.\<close>

definition IsSpace :: "nat \<Rightarrow> bool" where
  "IsSpace r =
     (if r \<le> 0xFF then r \<in> {0x09, 0x0A, 0x0B, 0x0C, 0x0D, 0x20, 0x85, 0xA0}
      else r = 0x1680 \<or> (0x2000 \<le> r \<and> r \<le> 0x200A) \<or> r = 0x2028 \<or> r = 0x2029
           \<or> r = 0x202F \<or> r = 0x205F \<or> r = 0x3000)"

text \<open>
  \<^verbatim>\<open>strings.FieldsFunc(s, f)\<close>: one pass over the runes of \<open>s\<close>; \<open>cur\<close> is the field
  being read (\<open>None\<close> while \<^verbatim>\<open>start < 0\<close>). A rune satisfying \<open>f\<close> closes the field, any
  other rune opens or extends it, and the end of the string closes the last one.
\<close>

function FieldsFunc :: "(nat \<Rightarrow> bool) \<Rightarrow> string \<Rightarrow> string option \<Rightarrow> string list" where
  "FieldsFunc f [] cur = (case cur of None \<Rightarrow> [] | Some w \<Rightarrow> [w])"
| "FieldsFunc f (c # cs) cur =
     (let (r, n) = DecodeRune (c # cs) in
      if f r
      then (case cur of
              Some w \<Rightarrow> w # FieldsFunc f (drop n (c # cs)) None
            | None \<Rightarrow> FieldsFunc f (drop n (c # cs)) None)
      else FieldsFunc f (drop n (c # cs))
             (Some ((case cur of None \<Rightarrow> [] | Some w \<Rightarrow> w) @ take n (c # cs))))"
  by pat_completeness auto
termination
proof (relation "measure (\<lambda>(f, s, cur). length s)", goal_cases)
  case 1
  show ?case by simp
next
  case (2 f c cs cur x r n)
  then have "n = snd (DecodeRune (c # cs))" by (metis snd_conv)
  then show ?case using DecodeRune_width [of c cs] by simp
next
  case (3 f c cs cur x r n)
  then have "n = snd (DecodeRune (c # cs))" by (metis snd_conv)
  then show ?case using DecodeRune_width [of c cs] by simp
next
  case (4 f c cs cur x r n)
  then have "n = snd (DecodeRune (c # cs))" by (metis snd_conv)
  then show ?case using DecodeRune_width [of c cs] by simp
qed

text \<open>
  \<^verbatim>\<open>strings.Fields(s)\<close> splits around runs of white space as \<^verbatim>\<open>unicode.IsSpace\<close>
  defines it. (Its fast path for strings without a byte above \<open>0x7F\<close> computes the same
  fields.)
\<close>

definition Fields :: "string \<Rightarrow> string list" where
  "Fields s = FieldsFunc IsSpace s None"

text \<open>\<^verbatim>\<open>strings.Join(elems, sep)\<close>.\<close>

fun Join :: "string list \<Rightarrow> string \<Rightarrow> string" where
  "Join [] sep = []"
| "Join [x] sep = x"
| "Join (x # y # ys) sep = x @ sep @ Join (y # ys) sep"

definition HasPrefix :: "string \<Rightarrow> string \<Rightarrow> bool" where
  "HasPrefix s p = (take (length p) s = p)"

definition TrimPrefix :: "string \<Rightarrow> string \<Rightarrow> string" where
  "TrimPrefix s p = (if HasPrefix s p then drop (length p) s else s)"

text \<open>
  The conversion \<^verbatim>\<open>string(b)\<close> of a byte \<open>b\<close>: the UTF-8 encoding of the code point
  whose number is \<open>b\<close>. Below \<open>0x80\<close> that is the byte itself; from \<open>0x80\<close> on it is the
  two-byte encoding of a Latin-1 code point.
\<close>

definition byte_to_string :: "char \<Rightarrow> string" where
  "byte_to_string b =
     (let n = (of_char b :: nat) in
      if n < 0x80 then [b]
      else [char_of (0xC0 + n div 64), char_of (0x80 + n mod 64)])"

text \<open>
  \<^verbatim>\<open>strconv.ParseInt(s, 10, 64)\<close>: an optional sign, then one or more decimal digits,
  and the value must fit a signed 64-bit integer; \<open>None\<close> is the error return.
\<close>

fun parse_digits :: "string \<Rightarrow> nat \<Rightarrow> nat option" where
  "parse_digits [] acc = Some acc"
| "parse_digits (c # cs) acc =
     (if (0x30::nat) \<le> of_char c \<and> of_char c \<le> (0x39::nat)
      then parse_digits cs (acc * 10 + (of_char c - 0x30))
      else None)"

definition ParseUint :: "string \<Rightarrow> nat option" where
  "ParseUint s = (if s = [] then None else parse_digits s 0)"

definition ParseInt :: "string \<Rightarrow> int option" where
  "ParseInt s =
     (case s of
        [] \<Rightarrow> None
      | c # cs \<Rightarrow>
          let neg = (c = CHR ''-'');
              ds = (if c = CHR ''+'' \<or> c = CHR ''-'' then cs else s)
          in case ParseUint ds of
               None \<Rightarrow> None
             | Some un \<Rightarrow>
                 if \<not> neg \<and> 2 ^ 63 \<le> un then None
                 else if neg \<and> 2 ^ 63 < un then None
                 else Some (if neg then - int un else int un))"

section \<open>The marker pattern\<close>

text \<open>
  The syntax tree of a pattern of Go's \<^verbatim>\<open>regexp\<close> package, with the operators of
  \<^verbatim>\<open>regexp/syntax\<close> that the marker pattern uses. The flag of a repetition says whether
  it is greedy; \<open>BeginLine\<close> and \<open>EndLine\<close> are \<^verbatim>\<open>^\<close> and \<^verbatim>\<open>$\<close> under the flag
  \<^verbatim>\<open>(?m)\<close>. Literals and classes hold ASCII bytes only.
\<close>

datatype regex =
    EmptyMatch
  | Literal string
  | CharClass "char list"
  | AnyCharNotNL
  | BeginLine
  | EndLine
  | WordBoundary
  | Capture nat regex
  | Star bool regex
  | Plus bool regex
  | Quest bool regex
  | Concat regex regex
  | Alternate regex regex

text \<open>
  A thread of the matcher is a position in the input and the capture registers (start and
  end offset of each group that has matched). A continuation is what remains to be matched
  after a sub-pattern; it answers with the first thread that reaches the end of the
  pattern, or \<open>None\<close>.
\<close>

type_synonym caps = "nat \<Rightarrow> (nat \<times> nat) option"
type_synonym thread = "nat \<times> caps"
type_synonym cont = "nat \<Rightarrow> caps \<Rightarrow> thread option"

text \<open>\<^verbatim>\<open>\b\<close> is the ASCII word boundary: word characters are \<^verbatim>\<open>[0-9A-Za-z_]\<close>.\<close>

definition IsWordChar :: "char \<Rightarrow> bool" where
  "IsWordChar ch =
     (let n = (of_char ch :: nat) in
      (0x41 \<le> n \<and> n \<le> 0x5A) \<or> (0x61 \<le> n \<and> n \<le> 0x7A) \<or> (0x30 \<le> n \<and> n \<le> 0x39) \<or> n = 0x5F)"

definition word_before :: "string \<Rightarrow> nat \<Rightarrow> bool" where
  "word_before s i = (0 < i \<and> i \<le> length s \<and> IsWordChar (s ! (i - 1)))"

definition word_after :: "string \<Rightarrow> nat \<Rightarrow> bool" where
  "word_after s i = (i < length s \<and> IsWordChar (s ! i))"

text \<open>
  One or more repetitions of \<open>body\<close>, as the package compiles \<^verbatim>\<open>x+\<close>: after each
  repetition a greedy loop prefers to repeat and a non-greedy one prefers to leave. A
  repetition that consumed nothing is not repeated (the matcher never visits an
  instruction twice at the same position). The first argument after the flag bounds the
  number of further repetitions by the number of bytes left, which every further
  repetition must shorten.
\<close>

fun plus_loop ::
  "bool \<Rightarrow> nat \<Rightarrow> (nat \<Rightarrow> caps \<Rightarrow> cont \<Rightarrow> thread option) \<Rightarrow> nat \<Rightarrow> caps \<Rightarrow> cont \<Rightarrow> thread option" where
  "plus_loop greedy 0 body i c k = body i c k"
| "plus_loop greedy (Suc n) body i c k =
     body i c (\<lambda>j c'.
       if greedy
       then (case (if i < j then plus_loop greedy n body j c' k else None) of
               Some t \<Rightarrow> Some t
             | None \<Rightarrow> k j c')
       else (case k j c' of
               Some t \<Rightarrow> Some t
             | None \<Rightarrow> if i < j then plus_loop greedy n body j c' k else None))"

text \<open>
  The matcher: \<open>match_from re s i c k\<close> matches \<open>re\<close> against \<open>s\<close> from offset \<open>i\<close> with
  registers \<open>c\<close> and then continues with \<open>k\<close>. Alternatives are tried in the order of the
  pattern and the first success is returned, which is the leftmost-first rule the package
  documents ("the one that a backtracking search would have found first"). \<^verbatim>\<open>.\<close> consumes
  one whole rune other than a newline. \<^verbatim>\<open>x*\<close> is matched as \<^verbatim>\<open>(x+)?\<close>, the form the
  compiler gives it when \<open>x\<close> can match the empty string; for any other \<open>x\<close> the two forms
  match alike.
\<close>

fun match_from :: "regex \<Rightarrow> string \<Rightarrow> nat \<Rightarrow> caps \<Rightarrow> cont \<Rightarrow> thread option" where
  "match_from EmptyMatch s i c k = k i c"
| "match_from (Literal t) s i c k =
     (if take (length t) (drop i s) = t then k (i + length t) c else None)"
| "match_from (CharClass cls) s i c k =
     (if i < length s \<and> s ! i \<in> set cls then k (Suc i) c else None)"
| "match_from AnyCharNotNL s i c k =
     (if i < length s \<and> s ! i \<noteq> CHR 0x0A then k (i + snd (DecodeRune (drop i s))) c else None)"
| "match_from BeginLine s i c k =
     (if i = 0 \<or> (i \<le> length s \<and> s ! (i - 1) = CHR 0x0A) then k i c else None)"
| "match_from EndLine s i c k =
     (if i = length s \<or> (i < length s \<and> s ! i = CHR 0x0A) then k i c else None)"
| "match_from WordBoundary s i c k =
     (if word_before s i \<noteq> word_after s i then k i c else None)"
| "match_from (Capture n r) s i c k = match_from r s i c (\<lambda>j c'. k j (c'(n \<mapsto> (i, j))))"
| "match_from (Concat r1 r2) s i c k = match_from r1 s i c (\<lambda>j c'. match_from r2 s j c' k)"
| "match_from (Alternate r1 r2) s i c k =
     (case match_from r1 s i c k of Some t \<Rightarrow> Some t | None \<Rightarrow> match_from r2 s i c k)"
| "match_from (Plus greedy r) s i c k =
     plus_loop greedy (length s - i) (\<lambda>i' c' k'. match_from r s i' c' k') i c k"
| "match_from (Star greedy r) s i c k =
     (if greedy
      then (case plus_loop greedy (length s - i) (\<lambda>i' c' k'. match_from r s i' c' k') i c k of
              Some t \<Rightarrow> Some t
            | None \<Rightarrow> k i c)
      else (case k i c of
              Some t \<Rightarrow> Some t
            | None \<Rightarrow> plus_loop greedy (length s - i) (\<lambda>i' c' k'. match_from r s i' c' k') i c k))"
| "match_from (Quest greedy r) s i c k =
     (if greedy
      then (case match_from r s i c k of Some t \<Rightarrow> Some t | None \<Rightarrow> k i c)
      else (case k i c of Some t \<Rightarrow> Some t | None \<Rightarrow> match_from r s i c k))"

text \<open>\<^verbatim>\<open>NumSubexp\<close>: the number of capture groups.\<close>

fun NumSubexp :: "regex \<Rightarrow> nat" where
  "NumSubexp (Capture n r) = max n (NumSubexp r)"
| "NumSubexp (Star g r) = NumSubexp r"
| "NumSubexp (Plus g r) = NumSubexp r"
| "NumSubexp (Quest g r) = NumSubexp r"
| "NumSubexp (Concat r1 r2) = max (NumSubexp r1) (NumSubexp r2)"
| "NumSubexp (Alternate r1 r2) = max (NumSubexp r1) (NumSubexp r2)"
| "NumSubexp r = 0"

text \<open>
  The unanchored search: the pattern is tried at each rune boundary from the left, and the
  first offset where it matches wins. The result is the start, the end and the registers.
\<close>

function search :: "regex \<Rightarrow> string \<Rightarrow> nat \<Rightarrow> (nat \<times> nat \<times> caps) option" where
  "search re s pos =
     (if length s < pos then None
      else case match_from re s pos Map.empty (\<lambda>j c. Some (j, c)) of
             Some (j, c) \<Rightarrow> Some (pos, j, c)
           | None \<Rightarrow>
               if pos < length s then search re s (pos + snd (DecodeRune (drop pos s))) else None)"
  by pat_completeness auto
termination
proof (relation "measure (\<lambda>(re, s, pos). Suc (length s) - pos)", goal_cases)
  case 1
  show ?case by simp
next
  case (2 re s pos)
  then obtain c cs where "drop pos s = c # cs" by (cases "drop pos s") auto
  then have "1 \<le> snd (DecodeRune (drop pos s))" by (simp add: Let_def)
  then show ?case using 2 by simp
qed

declare search.simps [simp del]

definition slice :: "string \<Rightarrow> nat \<times> nat \<Rightarrow> string" where
  "slice s be = take (snd be - fst be) (drop (fst be) s)"

text \<open>
  \<^verbatim>\<open>re.FindSubmatch(b)\<close>: the empty list is the nil return (no match); otherwise the
  text of the whole match and then of each group, \<open>None\<close> for a group that took no part.
\<close>

definition FindSubmatch :: "regex \<Rightarrow> string \<Rightarrow> string option list" where
  "FindSubmatch re s =
     (case search re s 0 of
        None \<Rightarrow> []
      | Some (b, e, c) \<Rightarrow>
          Some (slice s (b, e)) # map (\<lambda>n. map_option (slice s) (c n)) [1..<Suc (NumSubexp re)])"

text \<open>The conversion \<^verbatim>\<open>string(match[i])\<close>; a nil slice converts to the empty string.\<close>

definition bytes_to_string :: "string option \<Rightarrow> string" where
  "bytes_to_string b = (case b of None \<Rightarrow> [] | Some s \<Rightarrow> s)"

text \<open>Alternatives and sequences of more than two members associate to the right.\<close>

fun alternation :: "regex list \<Rightarrow> regex" where
  "alternation [] = EmptyMatch"
| "alternation [r] = r"
| "alternation (r # rs) = Alternate r (alternation rs)"

fun concatenation :: "regex list \<Rightarrow> regex" where
  "concatenation [] = EmptyMatch"
| "concatenation [r] = r"
| "concatenation (r # rs) = Concat r (concatenation rs)"

text \<open>\<^verbatim>\<open>var tags = []string{"BUG", "FIXME", "XXX", "TODO", "HACK", "OPTIMIZE", "NOTE"}\<close>\<close>

definition tags :: "string list" where
  "tags = [''BUG'', ''FIXME'', ''XXX'', ''TODO'', ''HACK'', ''OPTIMIZE'', ''NOTE'']"

text \<open>The class \<^verbatim>\<open>\s\<close>: tab, newline, form feed, carriage return and space.\<close>

definition perl_space :: "char list" where
  "perl_space = [CHR 0x09, CHR 0x0A, CHR 0x0C, CHR 0x0D, CHR '' '']"

text \<open>
  The pattern that \<^verbatim>\<open>parseArgs\<close> builds and \<^verbatim>\<open>main\<close> compiles, for the tag list \<open>ts\<close>:
  \<^verbatim>\<open>(?m)(?:^|\s*(?:(?:#+|//+|<!--|--|/*|"""|''')+\s*)+)\s*(?:^|\b)(TAGS)[\s:;-]+(.+?)(?:$|-->|#}}|\*/|--}}|}}|#+|#}|"""|''')*$\<close>
  where \<open>TAGS\<close> is the tags joined by \<^verbatim>\<open>|\<close>. \<open>comment_leader\<close> is the inner alternative
  of the first group (note that \<^verbatim>\<open>/*\<close> there is "zero or more slashes"), \<open>comment_closer\<close>
  the alternative of the last group.
\<close>

definition comment_leader :: regex where
  "comment_leader = alternation
     [Plus True (Literal ''#''),
      Concat (Literal ''/'') (Plus True (Literal ''/'')),
      Literal ''<!--'',
      Literal ''--'',
      Star True (Literal ''/''),
      Literal [CHR 0x22, CHR 0x22, CHR 0x22],
      Literal [CHR 0x27, CHR 0x27, CHR 0x27]]"

definition comment_closer :: regex where
  "comment_closer = alternation
     [EndLine,
      Literal ''-->'',
      Literal ''#}}'',
      Literal ''*/'',
      Literal ''--}}'',
      Literal ''}}'',
      Plus True (Literal ''#''),
      Literal ''#}'',
      Literal [CHR 0x22, CHR 0x22, CHR 0x22],
      Literal [CHR 0x27, CHR 0x27, CHR 0x27]]"

definition tags_regex :: "string list \<Rightarrow> regex" where
  "tags_regex ts = concatenation
     [Alternate BeginLine
        (Concat (Star True (CharClass perl_space))
           (Plus True (Concat (Plus True comment_leader) (Star True (CharClass perl_space))))),
      Star True (CharClass perl_space),
      Alternate BeginLine WordBoundary,
      Capture 1 (alternation (map Literal ts)),
      Plus True (CharClass (perl_space @ '':;-'')),
      Capture 2 (Plus False AnyCharNotNL),
      Star True comment_closer,
      EndLine]"

text \<open>\<^verbatim>\<open>strings.Contains(s, t)\<close>.\<close>

definition Contains :: "string \<Rightarrow> string \<Rightarrow> bool" where
  "Contains s t = list_ex (\<lambda>i. take (length t) (drop i s) = t) [0..<Suc (length s)]"

section \<open>Author names and the blame parser\<close>

definition maxAuthorLength :: int where
  "maxAuthorLength = 22"

text \<open>
  The first loop of \<^verbatim>\<open>truncateName\<close>, run over the words from the last to the first
  (the argument is the reversed word list); \<open>words[i][0]\<close> panics on an empty word.
\<close>

fun truncate_loop :: "string list \<Rightarrow> int \<Rightarrow> int \<Rightarrow> string list \<Rightarrow> error + string list" where
  "truncate_loop [] totalLen maxLength truncated = Inr truncated"
| "truncate_loop (w # ws) totalLen maxLength truncated =
     (if totalLen > maxLength
      then (case w of
              [] \<Rightarrow> Inl (Panic ''index out of range'')
            | c # _ \<Rightarrow>
                truncate_loop ws (totalLen - (int (length w) - 2)) maxLength
                  (truncated @ [byte_to_string c]))
      else truncate_loop ws totalLen maxLength (truncated @ [w]))"

text \<open>
  \<^verbatim>\<open>func truncateName(name string, maxLength int) string\<close>: the loop above, the in-place
  reversal of \<open>truncated\<close>, and the join with single spaces.
\<close>

definition truncateName :: "string \<Rightarrow> int \<Rightarrow> error + string" where
  "truncateName name maxLength =
     (case truncate_loop (rev (Fields name)) (int (length name)) maxLength [] of
        Inl e \<Rightarrow> Inl e
      | Inr truncated \<Rightarrow> Inr (Join (rev truncated) '' ''))"

text \<open>
  What the loop of \<open>truncateName\<close> may put in place of a word \<open>w\<close>: the word itself, or
  the conversion of its first byte.
\<close>

definition kept_or_initial :: "string \<Rightarrow> string \<Rightarrow> bool" where
  "kept_or_initial w' w = (w' = w \<or> (case w of [] \<Rightarrow> False | c # _ \<Rightarrow> w' = byte_to_string c))"

text \<open>
  \<^verbatim>\<open>func parseGitBlame(out io.Reader, blameChannel chan []*LineBlame)\<close>. The input is the
  sequence of lines the scanner yields. The loop state is \<open>blames\<close> and \<open>currentBlame\<close>
  (\<open>None\<close> for nil); after the loop the record in progress is appended.
\<close>

fun parse_loop ::
  "string list \<Rightarrow> LineBlame list \<times> LineBlame option
     \<Rightarrow> error + (LineBlame list \<times> LineBlame option)" where
  "parse_loop [] st = Inr st"
| "parse_loop (buf # rest) (bl, cur) =
     (if HasPrefix buf ''author ''
      then (case truncateName (TrimPrefix buf ''author '') maxAuthorLength of
              Inl e \<Rightarrow> Inl e
            | Inr a \<Rightarrow>
                parse_loop rest
                  (case cur of None \<Rightarrow> bl | Some b \<Rightarrow> bl @ [b],
                   Some \<lparr>Author = a, Timestamp = 0\<rparr>))
      else if HasPrefix buf ''author-time ''
      then (case cur of
              None \<Rightarrow> parse_loop rest (bl, cur)
            | Some b \<Rightarrow>
                (case ParseInt (TrimPrefix buf ''author-time '') of
                   Some ts \<Rightarrow> parse_loop rest (bl, Some (b\<lparr>Timestamp := word_of_int ts\<rparr>))
                 | None \<Rightarrow> parse_loop rest (bl, cur)))
      else parse_loop rest (bl, cur))"

definition append_last :: "LineBlame list \<times> LineBlame option \<Rightarrow> LineBlame list" where
  "append_last st = (case snd st of None \<Rightarrow> fst st | Some b \<Rightarrow> fst st @ [b])"

definition parseGitBlame :: "string list \<Rightarrow> error + LineBlame list" where
  "parseGitBlame ls =
     (case parse_loop ls ([], None) of Inl e \<Rightarrow> Inl e | Inr st \<Rightarrow> Inr (append_last st))"

text \<open>The lines that start a record.\<close>

definition is_author_line :: "string \<Rightarrow> bool" where
  "is_author_line buf = HasPrefix buf ''author ''"

section \<open>Scan workers\<close>

text \<open>
  \<^verbatim>\<open>type matchLine struct { n int; tag string; text string }\<close> and
  \<^verbatim>\<open>type searchResult struct { Path string; Lines []*matchLine }\<close>. The line counter
  starts at 1 and grows by one per line read, so it is a natural number here (a file of
  \<open>2 ^ 63\<close> lines, where a Go \<open>int\<close> would wrap, does not exist).
\<close>

record matchLine =
  line_n :: nat
  line_tag :: string
  line_text :: string

record searchResult =
  Path :: string
  Lines :: "matchLine list"

text \<open>\<^verbatim>\<open>strings.Split(s, sep)\<close> for a separator of one byte.\<close>

fun Split :: "string \<Rightarrow> char \<Rightarrow> string list" where
  "Split [] sep = [[]]"
| "Split (ch # cs) sep =
     (if ch = sep then [] # Split cs sep
      else (case Split cs sep of
              [] \<Rightarrow> [[ch]]
            | w # ws \<Rightarrow> (ch # w) # ws))"

text \<open>
  What a worker sees of the file system. \<open>Stat\<close> answers that the path does not exist,
  another error (with its message), or the \<^verbatim>\<open>FileInfo\<close>, of which only \<open>IsDir()\<close> is
  used. \<open>Open\<close> answers an error message or the file, given as the sequence of lines that
  \<^verbatim>\<open>bufio.Scanner\<close> yields until \<open>Scan()\<close> returns false. \<open>DetectContentType\<close> is
  \<^verbatim>\<open>http.DetectContentType\<close>.
\<close>

datatype stat_result = StatNotExist | StatError string | StatInfo bool

record fs_env =
  Stat :: "string \<Rightarrow> stat_result"
  Open :: "string \<Rightarrow> string + string list"
  DetectContentType :: "string \<Rightarrow> string"

text \<open>
  The test \<^verbatim>\<open>strings.Split(mimeType, ";")[0] != "text/plain"\<close> on the sniffed type of a line.
\<close>

definition is_text_plain :: "fs_env \<Rightarrow> string \<Rightarrow> bool" where
  "is_text_plain env line =
     ((case Split (DetectContentType env line) CHR '';'' of [] \<Rightarrow> [] | p # _ \<Rightarrow> p) = ''text/plain'')"

text \<open>
  The body of the inner loop of \<^verbatim>\<open>searchWorker\<close> after the sniff: the pattern is
  applied once to the line, and a result with at least three entries (the whole match and
  two groups) gives one match for the line; \<open>line\<close> is the line counter.
\<close>

definition match_line :: "regex \<Rightarrow> string \<Rightarrow> nat \<Rightarrow> matchLine list" where
  "match_line re text line =
     (let match = FindSubmatch re text
      in if 3 \<le> length match
         then [\<lparr>line_n = line,
                 line_tag = bytes_to_string (match ! 1),
                 line_text = bytes_to_string (match ! 2)\<rparr>]
         else [])"

text \<open>
  The inner loop over the lines of one file; \<open>lines\<close> holds the matches so far. A line that
  is not sniffed as plain text ends the loop (\<^verbatim>\<open>break\<close>); otherwise the match of the
  line, if any, is appended and the counter grows by one.
\<close>

fun scan_lines :: "fs_env \<Rightarrow> regex \<Rightarrow> string list \<Rightarrow> nat \<Rightarrow> matchLine list \<Rightarrow> matchLine list" where
  "scan_lines env re [] line lines = lines"
| "scan_lines env re (text # rest) line lines =
     (if \<not> is_text_plain env text then lines
      else scan_lines env re rest (line + 1) (lines @ match_line re text line))"

text \<open>
  What a worker has done: the text written to standard output, the results sent on the
  result channel, and the numbers of \<^verbatim>\<open>wg.Done()\<close> and \<^verbatim>\<open>wgResult.Add(1)\<close> calls.
\<close>

record worker_state =
  stdout :: "string list"
  searchResults :: "searchResult list"
  wg_done :: nat
  wgResult_added :: nat

text \<open>
  How the run of a worker over the jobs it receives ends: it has handled them all and waits
  for the next one; it has left its loop by \<^verbatim>\<open>return\<close>; or \<^verbatim>\<open>log.Fatalf\<close> has
  written its message and ended the process.
\<close>

datatype worker_end = AwaitingJob | WorkerReturned | ProcessExit string

text \<open>
  The test \<^verbatim>\<open>matcher != nil && matcher.Match(pathList, info.IsDir())\<close>, where \<open>pathList\<close>
  is the path split at the separator; \<open>None\<close> is the nil matcher.
\<close>

definition ignored :: "(string list \<Rightarrow> bool \<Rightarrow> bool) option \<Rightarrow> string \<Rightarrow> bool \<Rightarrow> bool" where
  "ignored matcher p isDir =
     (case matcher of None \<Rightarrow> False | Some mt \<Rightarrow> mt (Split p CHR ''/'') isDir)"

text \<open>
  \<^verbatim>\<open>func searchWorker(jobs, searchResults, matcher, wg, wgResult)\<close>, run over the jobs this
  worker receives, in order.
\<close>

fun searchWorker ::
  "fs_env \<Rightarrow> (string list \<Rightarrow> bool \<Rightarrow> bool) option \<Rightarrow> regex searchJob list \<Rightarrow> worker_state
     \<Rightarrow> worker_end \<times> worker_state" where
  "searchWorker env matcher [] st = (AwaitingJob, st)"
| "searchWorker env matcher (job # jobs) st =
     (case Stat env (path job) of
        StatNotExist \<Rightarrow>
          (WorkerReturned, st\<lparr>stdout := stdout st @ [path job @ '' does not exist.'' @ [CHR 0x0A]]\<rparr>)
      | StatError e \<Rightarrow>
          (WorkerReturned,
           st\<lparr>stdout := stdout st @ [''Error checking '' @ path job @ '': '' @ e @ [CHR 0x0A]]\<rparr>)
      | StatInfo isDir \<Rightarrow>
          if ignored matcher (path job) isDir
          then searchWorker env matcher jobs (st\<lparr>wg_done := wg_done st + 1\<rparr>)
          else
            (case Open env (path job) of
               Inl e \<Rightarrow>
                 (ProcessExit (''couldn't open path '' @ path job @ '': '' @ e @ [CHR 0x0A]), st)
             | Inr f \<Rightarrow>
                 let lines = scan_lines env (regex job) f 1 []
                 in searchWorker env matcher jobs
                      ((if 0 < length lines
                        then st\<lparr>wgResult_added := wgResult_added st + 1,
                                searchResults := searchResults st @ [\<lparr>Path = path job, Lines = lines\<rparr>]\<rparr>
                        else st)\<lparr>wg_done := wg_done st + 1\<rparr>)))"

definition worker_start :: worker_state where
  "worker_start = \<lparr>stdout = [], searchResults = [], wg_done = 0, wgResult_added = 0\<rparr>"

section \<open>Result sink\<close>

text \<open>
  \<^verbatim>\<open>func BlameFile(path string) (*GitBlame, error)\<close>. The environment gives the outcome of
  each step outside the program: \<^verbatim>\<open>filepath.Abs\<close>, \<^verbatim>\<open>filepath.Dir\<close>, \<^verbatim>\<open>os.Chdir\<close>,
  \<^verbatim>\<open>cmd.StdoutPipe\<close>, \<^verbatim>\<open>cmd.Start\<close>, the lines the blame tool writes for a file, and
  \<^verbatim>\<open>cmd.Wait\<close> (an error when the tool exits with a non-zero status, as it does for an
  untracked file or outside a repository; the message includes the tool's standard error).
\<close>

record git_env =
  Abs :: "string \<Rightarrow> error + string"
  Dir :: "string \<Rightarrow> string"
  Chdir :: "string \<Rightarrow> error option"
  StdoutPipe :: "string \<Rightarrow> error option"
  Start :: "string \<Rightarrow> error option"
  blame_output :: "string \<Rightarrow> string list"
  Wait :: "string \<Rightarrow> string option"

definition BlameFile :: "git_env \<Rightarrow> string \<Rightarrow> error + GitBlame" where
  "BlameFile g p =
     (case Abs g p of
        Inl e \<Rightarrow> Inl e
      | Inr absolutePath \<Rightarrow>
          (case Chdir g (Dir g absolutePath) of
             Some e \<Rightarrow> Inl e
           | None \<Rightarrow>
               (case StdoutPipe g absolutePath of
                  Some e \<Rightarrow> Inl e
                | None \<Rightarrow>
                    (case Start g absolutePath of
                       Some e \<Rightarrow> Inl e
                     | None \<Rightarrow>
                         (case parseGitBlame (blame_output g absolutePath) of
                            Inl e \<Rightarrow> Inl e
                          | Inr bl \<Rightarrow>
                              (case Wait g absolutePath of
                                 Some msg \<Rightarrow> Inl (OsError (''git blame failed: '' @ msg))
                               | None \<Rightarrow> Inr \<lparr>blames = bl\<rparr>))))))"

text \<open>\<^verbatim>\<open>func (r *searchResult) MaxLineNumber() int\<close>.\<close>

definition MaxLineNumber :: "searchResult \<Rightarrow> nat" where
  "MaxLineNumber r = fold (\<lambda>line mx. if line_n line > mx then line_n line else mx) (Lines r) 0"

text \<open>\<^verbatim>\<open>fmt.Sprint\<close> of a number that is not negative: its decimal digits.\<close>

function Sprint :: "nat \<Rightarrow> string" where
  "Sprint k = (if k < 10 then [char_of (0x30 + k)] else Sprint (k div 10) @ [char_of (0x30 + k mod 10)])"
  by pat_completeness auto
termination
  by (relation "measure (\<lambda>k. k)") auto

declare Sprint.simps [simp del]

text \<open>
  \<^verbatim>\<open>func padLineNumber(number int, maxNumber int) string\<close>; \<^verbatim>\<open>strings.Repeat\<close> panics on a
  negative count.
\<close>

definition padLineNumber :: "nat \<Rightarrow> nat \<Rightarrow> error + string" where
  "padLineNumber number maxNumber =
     (let strNumber = Sprint number; strMaxNumber = Sprint maxNumber
      in if length strMaxNumber < length strNumber
         then Inl (Panic ''strings: negative Repeat count'')
         else Inr (''[Line '' @ replicate (length strMaxNumber - length strNumber) CHR '' ''
                    @ strNumber @ ''] ''))"

text \<open>
  The styling functions \<^verbatim>\<open>stylizeFilename\<close>, \<^verbatim>\<open>prettiyfyLine\<close> and \<^verbatim>\<open>prettiyfyBlame\<close>
  (at the constants \<^verbatim>\<open>STYLE\<close> and \<^verbatim>\<open>AGELIMIT\<close>) render through the terminal styling
  library and read the clock; they are parameters here.
\<close>

record presentation =
  stylizeFilename :: "string \<Rightarrow> nat \<Rightarrow> string"
  prettiyfyLine :: "string \<Rightarrow> string \<Rightarrow> string"
  prettiyfyBlame :: "LineBlame \<Rightarrow> string"

text \<open>
  The state of the sink: the lines written with \<^verbatim>\<open>fmt.Println\<close> and the number of
  \<^verbatim>\<open>wgResult.Done()\<close> calls.
\<close>

record sink_state =
  printed :: "string list"
  wgResult_done :: nat

text \<open>
  The inner loop of \<^verbatim>\<open>PrintResult\<close> over the lines of one result; \<open>gb\<close> is what
  \<open>BlameFile\<close> returned for the file. \<open>Inl\<close> is a panic.
\<close>

fun print_lines ::
  "presentation \<Rightarrow> error + GitBlame \<Rightarrow> searchResult \<Rightarrow> matchLine list \<Rightarrow> string list
     \<Rightarrow> error + string list" where
  "print_lines P gb result [] out = Inr out"
| "print_lines P gb result (line # rest) out =
     (let text = prettiyfyLine P (line_text line) (line_tag line)
      in case padLineNumber (line_n line) (MaxLineNumber result) of
           Inl e \<Rightarrow> Inl e
         | Inr lineNumber \<Rightarrow>
             (case gb of
                Inl gb_err \<Rightarrow> print_lines P gb result rest (out @ [lineNumber @ text])
              | Inr b \<Rightarrow>
                  (case BlameLine b (of_nat (line_n line)) of
                     Inl err \<Rightarrow> print_lines P gb result rest (out @ [lineNumber @ text])
                   | Inr blame \<Rightarrow>
                       print_lines P gb result rest
                         (out @ [lineNumber @ text @ '' '' @ prettiyfyBlame P blame]))))"

text \<open>
  \<^verbatim>\<open>func PrintResult(searchResults chan *searchResult, wgResult *sync.WaitGroup)\<close>, run
  over the results it receives, in order. The first component of the answer is the panic
  that ended the run, if any.
\<close>

fun PrintResult ::
  "presentation \<Rightarrow> git_env \<Rightarrow> searchResult list \<Rightarrow> sink_state \<Rightarrow> error option \<times> sink_state" where
  "PrintResult P g [] st = (None, st)"
| "PrintResult P g (result # results) st =
     (let header = stylizeFilename P (Path result) (length (Lines result));
          gb = BlameFile g (Path result)
      in case print_lines P gb result (Lines result) (printed st @ [header]) of
           Inl e \<Rightarrow> (Some e, st)
         | Inr out \<Rightarrow>
             PrintResult P g results
               (st\<lparr>printed := out @ [[]], wgResult_done := wgResult_done st + 1\<rparr>))"

text \<open>The line printed for a match when no blame is shown.\<close>

definition line_without_blame :: "presentation \<Rightarrow> searchResult \<Rightarrow> matchLine \<Rightarrow> string" where
  "line_without_blame P result line =
     ''[Line ''
     @ replicate (length (Sprint (MaxLineNumber result)) - length (Sprint (line_n line))) CHR '' ''
     @ Sprint (line_n line) @ ''] ''
     @ prettiyfyLine P (line_text line) (line_tag line)"

section \<open>An example tree\<close>

text \<open>
  A file system for the examples: \<open>gone\<close> does not exist, \<open>locked\<close> cannot be opened,
  \<open>a.go\<close> holds two marker comments, \<open>plain.txt\<close> holds none, \<open>b.pdf\<close> starts with a line
  that is not sniffed as text, and any other path is an empty file. The sniffer knows the PDF signature and takes
  everything else for text.
\<close>

definition example_env :: fs_env where
  "example_env =
     \<lparr>Stat = (\<lambda>p. if p = ''gone'' then StatNotExist else StatInfo False),
      Open = (\<lambda>p. if p = ''locked'' then Inl ''permission denied''
                  else if p = ''a.go'' then Inr [''// TODO: fix this'', ''x := 1'', ''# NOTE: a FIXME: b'']
                  else if p = ''plain.txt'' then Inr [''x := 1'', ''hello world'']
                  else if p = ''b.pdf'' then Inr [''%PDF-1.4'', ''// TODO: never read'']
                  else Inr []),
      DetectContentType = (\<lambda>b. if take 5 b = ''%PDF-'' then ''application/pdf''
                                else ''text/plain; charset=utf-8'')\<rparr>"

definition example_job :: "string \<Rightarrow> regex searchJob" where
  "example_job p = \<lparr>path = p, regex = tags_regex tags\<rparr>"

text \<open>
  A blame tool that fails for every file (the tree is not a repository), and a plain
  presentation.
\<close>

definition example_git :: git_env where
  "example_git =
     \<lparr>Abs = (\<lambda>p. Inr (''/tmp/'' @ p)),
      Dir = (\<lambda>p. ''/tmp''),
      Chdir = (\<lambda>d. None),
      StdoutPipe = (\<lambda>p. None),
      Start = (\<lambda>p. None),
      blame_output = (\<lambda>p. []),
      Wait = (\<lambda>p. Some ''exit status 128'')\<rparr>"

definition example_presentation :: presentation where
  "example_presentation =
     \<lparr>stylizeFilename = (\<lambda>file nComments. file),
      prettiyfyLine = (\<lambda>text tag. tag @ '' '' @ text),
      prettiyfyBlame = (\<lambda>blame. ''['' @ Author blame @ '']'')\<rparr>"

section \<open>Properties\<close>

subsection \<open>Line lookup\<close>

lemma sint_minus1:
  fixes n :: "64 word"
  shows "sint (n - 1) = (if sint n = - (2 ^ 63) then 2 ^ 63 - 1 else sint n - 1)"
proof (cases "sint n = - (2 ^ 63)")
  case True
  have "sint n = sint (word_of_int (- (2 ^ 63)) :: 64 word)"
    using True by simp
  then have "n = word_of_int (- (2 ^ 63))"
    by (rule signed_word_eqI)
  then show ?thesis using True by simp
next
  case False
  have b: "- (2 ^ 63) \<le> sint n" "sint n < 2 ^ 63"
    using sint_ge [of n] sint_lt [of n] by simp_all
  have "sint (n - 1) = signed_take_bit 63 (sint n - 1)"
    by (simp add: sint_word_ariths)
  also have "\<dots> = sint n - 1"
    using b False by (intro signed_take_bit_int_eq_self) simp_all
  finally show ?thesis using False by simp
qed

text \<open>
  C7. For a blame table of length \<open>len\<close> (a Go slice length, so below \<open>2 ^ 63\<close>) and every
  integer \<open>n\<close>, the lookup of line \<open>n\<close> is an error exactly when \<open>n\<close> is outside
  \<open>[1, len]\<close>, and for \<open>n\<close> inside it returns the record stored at index \<open>n - 1\<close>.
\<close>

theorem BlameLine_range:
  assumes "length (blames b) < 2 ^ 63"
  shows "((\<exists>e. BlameLine b n = Inl e) \<longleftrightarrow> (sint n < 1 \<or> int (length (blames b)) < sint n))
       \<and> (1 \<le> sint n \<and> sint n \<le> int (length (blames b))
            \<longrightarrow> BlameLine b n = Inr (blames b ! (nat (sint n) - 1)))"
proof -
  have L: "int (length (blames b)) < 2 ^ 63" using assms by (simp flip: of_nat_less_iff)
  have b: "- (2 ^ 63) \<le> sint n" "sint n < 2 ^ 63"
    using sint_ge [of n] sint_lt [of n] by simp_all
  show ?thesis
  proof (cases "sint n = - (2 ^ 63)")
    case True
    then show ?thesis using L by (simp add: BlameLine_def Let_def sint_minus1)
  next
    case False
    have "nat (sint n - 1) = nat (sint n) - 1" by simp
    then show ?thesis using False L b
      by (auto simp add: BlameLine_def Let_def sint_minus1)
  qed
qed

theorem BlameLine_range_witness:
  "length (blames \<lparr>blames = [\<lparr>Author = ''ann'', Timestamp = 7\<rparr>, \<lparr>Author = ''bob'', Timestamp = 0\<rparr>]\<rparr>) < 2 ^ 63
   \<and> BlameLine \<lparr>blames = [\<lparr>Author = ''ann'', Timestamp = 7\<rparr>, \<lparr>Author = ''bob'', Timestamp = 0\<rparr>]\<rparr> 2
       = Inr \<lparr>Author = ''bob'', Timestamp = 0\<rparr>
   \<and> (\<exists>e. BlameLine \<lparr>blames = [\<lparr>Author = ''ann'', Timestamp = 7\<rparr>, \<lparr>Author = ''bob'', Timestamp = 0\<rparr>]\<rparr> 3 = Inl e)
   \<and> (\<exists>e. BlameLine \<lparr>blames = [\<lparr>Author = ''ann'', Timestamp = 7\<rparr>, \<lparr>Author = ''bob'', Timestamp = 0\<rparr>]\<rparr> 0 = Inl e)"
  using BlameLine_range [of "\<lparr>blames = [\<lparr>Author = ''ann'', Timestamp = 7\<rparr>, \<lparr>Author = ''bob'', Timestamp = 0\<rparr>]\<rparr>" 2]
        BlameLine_range [of "\<lparr>blames = [\<lparr>Author = ''ann'', Timestamp = 7\<rparr>, \<lparr>Author = ''bob'', Timestamp = 0\<rparr>]\<rparr>" 3]
        BlameLine_range [of "\<lparr>blames = [\<lparr>Author = ''ann'', Timestamp = 7\<rparr>, \<lparr>Author = ''bob'', Timestamp = 0\<rparr>]\<rparr>" 0]
  by simp

subsection \<open>Which entries the walker queues\<close>

text \<open>
  C8 as stated (a job is queued if and only if the entry is a regular file) does not hold:
  the guard of \<open>walk\<close> is \<^verbatim>\<open>!d.IsDir()\<close>, so a symbolic link, which is neither a
  directory nor a regular file, is queued.
\<close>

theorem walk_symlink_counterexample:
  "\<not> IsRegular \<lparr>entry_name = ''link'', entry_type = TSymlink\<rparr>
   \<and> enqueued ''/t/link'' \<lparr>entry_name = ''link'', entry_type = TSymlink\<rparr> None ()
        \<lparr>searchJobs = [], wg_added = 0\<rparr> = 1"
  by (simp add: IsRegular_def IsDir_def enqueued_def walk_def)

text \<open>
  C8, amended. During traversal a job is queued for an entry if and only if the walk
  reported no error for it and the entry is not a directory: no job is ever queued for a
  directory, every regular file without a walk error is queued, and so is every other
  entry that is not a directory; the pending-job counter grows by the number of jobs queued.
\<close>

theorem walk_enqueues_iff_not_dir:
  "(enqueued p d err rx st = 1 \<longleftrightarrow> err = None \<and> \<not> IsDir d)
   \<and> (enqueued p d err rx st = 0 \<longleftrightarrow> \<not> (err = None \<and> \<not> IsDir d))
   \<and> (IsDir d \<longrightarrow> searchJobs (snd (walk p d err rx st)) = searchJobs st)
   \<and> (IsRegular d \<and> err = None
        \<longrightarrow> searchJobs (snd (walk p d err rx st)) = searchJobs st @ [\<lparr>path = p, regex = rx\<rparr>])
   \<and> wg_added (snd (walk p d err rx st)) = wg_added st + enqueued p d err rx st"
  by (auto simp add: enqueued_def walk_def IsDir_def IsRegular_def split: option.splits)

theorem walk_enqueues_iff_not_dir_witness:
  "enqueued ''/t/a.go'' \<lparr>entry_name = ''a.go'', entry_type = TRegular\<rparr> None ()
      \<lparr>searchJobs = [], wg_added = 0\<rparr> = 1
   \<and> enqueued ''/t/sub'' \<lparr>entry_name = ''sub'', entry_type = TDir\<rparr> None ()
      \<lparr>searchJobs = [], wg_added = 0\<rparr> = 0
   \<and> searchJobs (snd (walk ''/t/sub'' \<lparr>entry_name = ''sub'', entry_type = TDir\<rparr> None ()
      \<lparr>searchJobs = [], wg_added = 0\<rparr>)) = []
   \<and> searchJobs (snd (walk ''/t/a.go'' \<lparr>entry_name = ''a.go'', entry_type = TRegular\<rparr> None ()
      \<lparr>searchJobs = [], wg_added = 0\<rparr>)) = [\<lparr>path = ''/t/a.go'', regex = ()\<rparr>]"
  using walk_enqueues_iff_not_dir [of "''/t/a.go''" "\<lparr>entry_name = ''a.go'', entry_type = TRegular\<rparr>" None "()"
          "\<lparr>searchJobs = [], wg_added = 0\<rparr>"]
        walk_enqueues_iff_not_dir [of "''/t/sub''" "\<lparr>entry_name = ''sub'', entry_type = TDir\<rparr>" None "()"
          "\<lparr>searchJobs = [], wg_added = 0\<rparr>"]
  by (simp add: IsDir_def IsRegular_def)

subsection \<open>The blame parser\<close>

text \<open>Fields are never empty, so \<open>truncateName\<close> never panics on \<open>words[i][0]\<close>.\<close>

lemma FieldsFunc_nonempty:
  "(\<And>w. cur = Some w \<Longrightarrow> w \<noteq> []) \<Longrightarrow> w \<in> set (FieldsFunc f s cur) \<Longrightarrow> w \<noteq> []"
proof (induction f s cur rule: FieldsFunc.induct)
  case (1 f cur)
  then show ?case by (auto split: option.splits)
next
  case (2 f c cs cur)
  obtain r n where rn: "DecodeRune (c # cs) = (r, n)" by (cases "DecodeRune (c # cs)")
  have n1: "1 \<le> n" using DecodeRune_width [of c cs] rn by simp
  show ?case
  proof (cases "f r")
    case True
    then show ?thesis using 2 rn by (auto split: option.splits)
  next
    case False
    have "(case cur of None \<Rightarrow> [] | Some w \<Rightarrow> w) @ take n (c # cs) \<noteq> []"
      using n1 by (cases n) auto
    then show ?thesis using 2(3)[OF refl rn[symmetric] False] 2(5) rn False by simp
  qed
qed

lemma Fields_nonempty: "w \<in> set (Fields s) \<Longrightarrow> w \<noteq> []"
  unfolding Fields_def by (rule FieldsFunc_nonempty [of None]) simp_all

lemma truncate_loop_total:
  "(\<And>w. w \<in> set ws \<Longrightarrow> w \<noteq> []) \<Longrightarrow>
   \<exists>r. truncate_loop ws t m acc = Inr r \<and> length r = length acc + length ws"
proof (induction ws arbitrary: t acc)
  case Nil
  then show ?case by simp
next
  case (Cons w ws)
  then obtain c cs where w: "w = c # cs" by (cases w) auto
  have rest: "\<And>t acc. \<exists>r. truncate_loop ws t m acc = Inr r \<and> length r = length acc + length ws"
    using Cons by simp
  show ?case
  proof (cases "t > m")
    case True
    from rest [of "t - (int (length w) - 2)" "acc @ [byte_to_string c]"]
    show ?thesis using True w by auto
  next
    case False
    from rest [of t "acc @ [w]"] show ?thesis using False by auto
  qed
qed

lemma truncateName_total: "\<exists>r. truncateName name m = Inr r"
proof -
  have "\<And>w. w \<in> set (rev (Fields name)) \<Longrightarrow> w \<noteq> []"
    using Fields_nonempty by simp
  from truncate_loop_total [of "rev (Fields name)" "int (length name)" m "[]", OF this]
  show ?thesis by (auto simp add: truncateName_def)
qed

lemma parse_loop_total: "\<exists>st'. parse_loop ls st = Inr st'"
proof (induction ls arbitrary: st)
  case Nil
  then show ?case by simp
next
  case (Cons buf rest)
  obtain bl cur where st: "st = (bl, cur)" by (cases st)
  obtain a where a: "truncateName (TrimPrefix buf ''author '') maxAuthorLength = Inr a"
    using truncateName_total by blast
  show ?case using Cons [of "(case cur of None \<Rightarrow> bl | Some b \<Rightarrow> bl @ [b], Some \<lparr>Author = a, Timestamp = 0\<rparr>)"]
      Cons [of "(bl, cur)"] Cons
    by (auto simp add: st a split: option.splits)
qed

lemma parse_loop_append:
  "parse_loop (xs @ ys) st = (case parse_loop xs st of Inl e \<Rightarrow> Inl e | Inr st' \<Rightarrow> parse_loop ys st')"
proof (induction xs arbitrary: st)
  case Nil
  then show ?case by simp
next
  case (Cons buf rest)
  obtain bl cur where st: "st = (bl, cur)" by (cases st)
  show ?case using Cons by (simp add: st split: sum.splits option.splits)
qed

lemma parse_loop_count:
  "parse_loop ls st = Inr st' \<Longrightarrow>
   length (append_last st') = length (append_last st) + length (filter is_author_line ls)"
proof (induction ls arbitrary: st)
  case Nil
  then show ?case by simp
next
  case (Cons buf rest)
  obtain bl cur where st: "st = (bl, cur)" by (cases st)
  show ?case
  proof (cases "HasPrefix buf ''author ''")
    case True
    obtain a where a: "truncateName (TrimPrefix buf ''author '') maxAuthorLength = Inr a"
      using truncateName_total by blast
    have "parse_loop rest (case cur of None \<Rightarrow> bl | Some b \<Rightarrow> bl @ [b], Some \<lparr>Author = a, Timestamp = 0\<rparr>) = Inr st'"
      using Cons.prems True a by (simp add: st)
    from Cons.IH [OF this] show ?thesis using True
      by (simp add: st is_author_line_def append_last_def split: option.splits)
  next
    case False
    show ?thesis
    proof (cases "HasPrefix buf ''author-time ''")
      case at: True
      show ?thesis
      proof (cases cur)
        case None
        then have "parse_loop rest (bl, cur) = Inr st'" using Cons.prems False at by (simp add: st)
        from Cons.IH [OF this] show ?thesis using False by (simp add: st is_author_line_def)
      next
        case (Some b)
        show ?thesis
        proof (cases "ParseInt (TrimPrefix buf ''author-time '')")
          case None
          then have "parse_loop rest (bl, cur) = Inr st'" using Cons.prems False at Some by (simp add: st)
          from Cons.IH [OF this] show ?thesis using False by (simp add: st is_author_line_def)
        next
          case (Some ts)
          then have "parse_loop rest (bl, Some (b\<lparr>Timestamp := word_of_int ts\<rparr>)) = Inr st'"
            using Cons.prems False at \<open>cur = Some b\<close> by (simp add: st)
          from Cons.IH [OF this] show ?thesis using False \<open>cur = Some b\<close>
            by (simp add: st is_author_line_def append_last_def)
        qed
      qed
    next
      case nat: False
      then have "parse_loop rest (bl, cur) = Inr st'" using Cons.prems False by (simp add: st)
      from Cons.IH [OF this] show ?thesis using False by (simp add: st is_author_line_def)
    qed
  qed
qed

text \<open>Records already completed are never touched again.\<close>

lemma parse_loop_prefix:
  "parse_loop ls (bl, cur) = Inr (bl', cur') \<Longrightarrow> parse_loop ls (p @ bl, cur) = Inr (p @ bl', cur')"
proof (induction ls arbitrary: bl cur)
  case Nil
  then show ?case by simp
next
  case (Cons buf rest)
  show ?case
  proof (cases "HasPrefix buf ''author ''")
    case True
    obtain a where a: "truncateName (TrimPrefix buf ''author '') maxAuthorLength = Inr a"
      using truncateName_total by blast
    have "parse_loop rest (case cur of None \<Rightarrow> bl | Some b \<Rightarrow> bl @ [b], Some \<lparr>Author = a, Timestamp = 0\<rparr>) = Inr (bl', cur')"
      using Cons.prems True a by simp
    from Cons.IH [OF this] show ?thesis using True a by (simp split: option.splits)
  next
    case False
    then show ?thesis using Cons by (auto split: option.splits if_splits)
  qed
qed

lemma parse_loop_skip:
  "(\<And>l. l \<in> set mid \<Longrightarrow> \<not> is_author_line l \<and> \<not> HasPrefix l ''author-time '') \<Longrightarrow>
   parse_loop mid st = Inr st"
proof (induction mid)
  case Nil
  then show ?case by simp
next
  case (Cons l mid)
  obtain bl cur where st: "st = (bl, cur)" by (cases st)
  show ?case using Cons by (simp add: st is_author_line_def)
qed

lemma parse_loop_author:
  assumes "is_author_line l"
  shows "\<exists>a. truncateName (TrimPrefix l ''author '') maxAuthorLength = Inr a
     \<and> parse_loop (l # ys) st = parse_loop ys (append_last st, Some \<lparr>Author = a, Timestamp = 0\<rparr>)"
proof -
  obtain bl cur where st: "st = (bl, cur)" by (cases st)
  obtain a where a: "truncateName (TrimPrefix l ''author '') maxAuthorLength = Inr a"
    using truncateName_total by blast
  show ?thesis using assms a
    by (cases cur) (auto simp add: st is_author_line_def append_last_def)
qed

lemma parseGitBlame_total: "\<exists>bs. parseGitBlame ls = Inr bs"
  using parse_loop_total [of ls "([], None)"] by (auto simp add: parseGitBlame_def)

lemma parseGitBlame_split:
  assumes l: "is_author_line l"
    and x: "parseGitBlame xs = Inr b1"
    and y: "parseGitBlame (l # ys) = Inr b2"
  shows "parseGitBlame (xs @ l # ys) = Inr (b1 @ b2)"
proof -
  obtain st1 where st1: "parse_loop xs ([], None) = Inr st1"
    using parse_loop_total by blast
  have b1: "b1 = append_last st1" using x st1 by (simp add: parseGitBlame_def)
  obtain a where a: "parse_loop (l # ys) st1 = parse_loop ys (append_last st1, Some \<lparr>Author = a, Timestamp = 0\<rparr>)"
    "parse_loop (l # ys) ([], None) = parse_loop ys (append_last ([], None), Some \<lparr>Author = a, Timestamp = 0\<rparr>)"
    using parse_loop_author [OF l, of ys st1] parse_loop_author [OF l, of ys "([], None)"] by auto
  obtain bl' cur' where st2: "parse_loop ys ([], Some \<lparr>Author = a, Timestamp = 0\<rparr>) = Inr (bl', cur')"
    using parse_loop_total [of ys "([], Some \<lparr>Author = a, Timestamp = 0\<rparr>)"] by (metis surj_pair)
  have b2: "b2 = append_last (bl', cur')" using y a(2) st2 by (simp add: parseGitBlame_def append_last_def)
  have "parse_loop ys (b1 @ [], Some \<lparr>Author = a, Timestamp = 0\<rparr>) = Inr (b1 @ bl', cur')"
    using st2 by (rule parse_loop_prefix)
  then have "parse_loop (xs @ l # ys) ([], None) = Inr (b1 @ bl', cur')"
    using st1 a(1) b1 by (simp add: parse_loop_append)
  then show ?thesis using b2 by (simp add: parseGitBlame_def append_last_def split: option.splits)
qed

text \<open>
  C6. For every blame stream the parser returns (it never fails), with exactly one record
  per author line. An author line starts a new record: the stream
  \<open>xs @ author-line # mid @ ys\<close>, where \<open>mid\<close> holds neither an author line nor a timestamp
  line and \<open>ys\<close> is empty or starts with an author line, parses to the records of \<open>xs\<close>,
  then the record of the author line with timestamp zero, then the records of \<open>ys\<close>. With
  \<open>ys\<close> empty this is the flush of the record in progress at the end of the stream.
\<close>

theorem parseGitBlame_records:
  "\<exists>b1 b2 a. parseGitBlame xs = Inr b1 \<and> parseGitBlame ys = Inr b2
      \<and> truncateName name maxAuthorLength = Inr a
      \<and> length b1 = length (filter is_author_line xs)
      \<and> ((\<forall>l \<in> set mid. \<not> is_author_line l \<and> \<not> HasPrefix l ''author-time '')
           \<and> (ys = [] \<or> is_author_line (hd ys))
          \<longrightarrow> parseGitBlame (xs @ (''author '' @ name) # mid @ ys)
                = Inr (b1 @ \<lparr>Author = a, Timestamp = 0\<rparr> # b2))"
proof -
  obtain b1 where b1: "parseGitBlame xs = Inr b1" using parseGitBlame_total by blast
  obtain b2 where b2: "parseGitBlame ys = Inr b2" using parseGitBlame_total by blast
  obtain a where a: "truncateName name maxAuthorLength = Inr a" using truncateName_total by blast
  have cnt: "length b1 = length (filter is_author_line xs)"
  proof -
    obtain st1 where st1: "parse_loop xs ([], None) = Inr st1" using parse_loop_total by blast
    from parse_loop_count [OF st1] b1 st1 show ?thesis
      by (simp add: parseGitBlame_def append_last_def)
  qed
  let ?l = "''author '' @ name"
  have l: "is_author_line ?l" by (simp add: is_author_line_def HasPrefix_def)
  have trim: "TrimPrefix ?l ''author '' = name" by (simp add: TrimPrefix_def HasPrefix_def)
  have rec: "parseGitBlame (xs @ ?l # mid @ ys) = Inr (b1 @ \<lparr>Author = a, Timestamp = 0\<rparr> # b2)"
    if mid: "\<forall>l \<in> set mid. \<not> is_author_line l \<and> \<not> HasPrefix l ''author-time ''"
      and ys: "ys = [] \<or> is_author_line (hd ys)"
  proof -
    have skip: "\<And>st. parse_loop mid st = Inr st" using mid by (intro parse_loop_skip) blast
    have one: "parseGitBlame (?l # mid) = Inr [\<lparr>Author = a, Timestamp = 0\<rparr>]"
      using a trim skip l
      by (simp add: parseGitBlame_def is_author_line_def parse_loop_append append_last_def)
    have two: "parseGitBlame (?l # mid @ ys) = Inr (\<lparr>Author = a, Timestamp = 0\<rparr> # b2)"
    proof (cases ys)
      case Nil
      then show ?thesis using one b2 by (simp add: parseGitBlame_def append_last_def)
    next
      case (Cons y ys')
      then have y: "is_author_line y" using ys by simp
      have "parseGitBlame ((?l # mid) @ y # ys') = Inr ([\<lparr>Author = a, Timestamp = 0\<rparr>] @ b2)"
        using y one b2 Cons by (intro parseGitBlame_split) simp_all
      then show ?thesis using Cons by simp
    qed
    show ?thesis using parseGitBlame_split [OF l b1 two] by simp
  qed
  show ?thesis using b1 b2 a cnt rec by blast
qed

theorem parseGitBlame_records_witness:
  "\<not> is_author_line ''summary x'' \<and> \<not> HasPrefix ''summary x'' ''author-time ''
   \<and> parseGitBlame [''author Ann'', ''author-time 5'', ''author Bob'', ''summary x'']
       = Inr [\<lparr>Author = ''Ann'', Timestamp = 5\<rparr>, \<lparr>Author = ''Bob'', Timestamp = 0\<rparr>]"
  using parseGitBlame_records [of "[''author Ann'', ''author-time 5'']" "[]" "''Bob''" "[''summary x'']"]
  by (simp add: parseGitBlame_def HasPrefix_def TrimPrefix_def truncateName_def Fields_def Let_def
      IsSpace_def maxAuthorLength_def ParseInt_def ParseUint_def append_last_def is_author_line_def)

subsection \<open>Author names\<close>

text \<open>
  Every author name goes through \<open>truncateName\<close> with the limit \<open>maxAuthorLength\<close>
  (see \<open>parse_loop\<close>). A name no longer than the limit comes back as its words joined by
  single spaces; in general the number of words is kept, and each word is kept or replaced
  by the conversion of its first byte.
\<close>

lemma truncate_loop_keep:
  "t \<le> m \<Longrightarrow> truncate_loop ws t m acc = Inr (acc @ ws)"
  by (induction ws arbitrary: acc) simp_all

lemma truncateName_short:
  "int (length name) \<le> m \<Longrightarrow> truncateName name m = Inr (Join (Fields name) '' '')"
  by (simp add: truncateName_def truncate_loop_keep)

lemma truncate_loop_words:
  "truncate_loop ws t m acc = Inr r \<Longrightarrow>
   \<exists>r'. r = acc @ r' \<and> list_all2 kept_or_initial r' ws"
proof (induction ws arbitrary: t acc)
  case Nil
  then show ?case by simp
next
  case (Cons w ws)
  show ?case
  proof (cases "t > m")
    case True
    then obtain c cs where w: "w = c # cs" using Cons.prems by (cases w) auto
    have "truncate_loop ws (t - (int (length w) - 2)) m (acc @ [byte_to_string c]) = Inr r"
      using Cons.prems True w by simp
    from Cons.IH [OF this] obtain r' where
      r': "r = (acc @ [byte_to_string c]) @ r'" "list_all2 kept_or_initial r' ws" by blast
    have "list_all2 kept_or_initial (byte_to_string c # r') (w # ws)"
      using r'(2) w by (simp add: kept_or_initial_def)
    then show ?thesis using r'(1) by (intro exI [of _ "byte_to_string c # r'"]) simp
  next
    case False
    then have "truncate_loop ws t m (acc @ [w]) = Inr r" using Cons.prems by simp
    from Cons.IH [OF this] obtain r' where
      r': "r = (acc @ [w]) @ r'" "list_all2 kept_or_initial r' ws" by blast
    have "list_all2 kept_or_initial (w # r') (w # ws)"
      using r'(2) by (simp add: kept_or_initial_def)
    then show ?thesis using r'(1) by (intro exI [of _ "w # r'"]) simp
  qed
qed

lemma truncateName_words:
  "\<exists>ws'. truncateName name m = Inr (Join ws' '' '') \<and> list_all2 kept_or_initial ws' (Fields name)"
proof -
  have ne: "\<And>w. w \<in> set (rev (Fields name)) \<Longrightarrow> w \<noteq> []"
    using Fields_nonempty by simp
  obtain r where r: "truncate_loop (rev (Fields name)) (int (length name)) m [] = Inr r"
    using truncate_loop_total [of "rev (Fields name)" "int (length name)" m "[]", OF ne] by blast
  from truncate_loop_words [OF r]
  have "list_all2 kept_or_initial r (rev (Fields name))"
    by simp
  then have "list_all2 kept_or_initial (rev r) (rev (rev (Fields name)))"
    by (simp only: list_all2_rev)
  then have "list_all2 kept_or_initial (rev r) (Fields name)" by simp
  then show ?thesis using r by (intro exI [of _ "rev r"]) (simp add: truncateName_def)
qed

lemma byte_to_string_C3: "byte_to_string (CHR 0xC3) = [CHR 0xC3, CHR 0x83]"
  by (simp add: byte_to_string_def char_of_eq_iff)

text \<open>
  C10. The replacement of a word is announced as its first letter, and for a word that
  starts with an ASCII byte it is. For the name \<open>Maria Fernanda Alvares\<close> with an acute accent on the \<open>A\<close> (23 bytes in UTF-8,
  the last word starting with the bytes \<open>C3 81\<close>, the code point \<open>U+00C1\<close>) the last word is
  replaced by the bytes \<open>C3 83\<close>, the code point \<open>U+00C3\<close>: neither the word nor its first
  character.
\<close>

theorem truncateName_non_ascii_first_letter:
  "Fields (''Maria Fernanda '' @ [CHR 0xC3, CHR 0x81] @ ''lvares'')
     = [''Maria'', ''Fernanda'', [CHR 0xC3, CHR 0x81] @ ''lvares'']
   \<and> DecodeRune ([CHR 0xC3, CHR 0x81] @ ''lvares'') = (0xC1, 2)
   \<and> truncateName (''Maria Fernanda '' @ [CHR 0xC3, CHR 0x81] @ ''lvares'') maxAuthorLength
     = Inr (''Maria Fernanda '' @ [CHR 0xC3, CHR 0x83])
   \<and> DecodeRune [CHR 0xC3, CHR 0x83] = (0xC3, 2)"
  by (simp add: truncateName_def Fields_def Let_def IsSpace_def maxAuthorLength_def
      byte_to_string_C3)

subsection \<open>The scan of one file\<close>

lemma scan_lines_acc:
  "scan_lines env re f line acc = acc @ scan_lines env re f line []"
proof (induction f arbitrary: line acc)
  case Nil
  then show ?case by simp
next
  case (Cons l f)
  show ?case
    using Cons.IH [of "line + 1" "acc @ match_line re l line"]
      Cons.IH [of "line + 1" "match_line re l line"]
    by simp
qed

lemma scan_lines_Cons:
  "scan_lines env re (l # f) line [] =
     (if is_text_plain env l then match_line re l line @ scan_lines env re f (line + 1) [] else [])"
  using scan_lines_acc [of env re f "line + 1" "match_line re l line"] by simp

lemma match_line_n: "ml \<in> set (match_line re l line) \<Longrightarrow> line_n ml = line"
  by (auto simp add: match_line_def Let_def split: if_splits)

lemma match_line_length: "length (match_line re l line) \<le> 1"
  by (simp add: match_line_def Let_def)

lemma scan_lines_bounds:
  "ml \<in> set (scan_lines env re f line []) \<Longrightarrow> line \<le> line_n ml \<and> line_n ml < line + length f"
proof (induction f arbitrary: line)
  case Nil
  then show ?case by simp
next
  case (Cons l f)
  from Cons.prems have "ml \<in> set (match_line re l line) \<or> ml \<in> set (scan_lines env re f (line + 1) [])"
    by (auto simp add: scan_lines_Cons simp del: scan_lines.simps split: if_splits)
  then show ?case
  proof
    assume "ml \<in> set (match_line re l line)"
    then show ?thesis using match_line_n by fastforce
  next
    assume "ml \<in> set (scan_lines env re f (line + 1) [])"
    from Cons.IH [OF this] show ?thesis by simp
  qed
qed

lemma scan_lines_sorted:
  "sorted_wrt (<) (map line_n (scan_lines env re f line []))"
proof (induction f arbitrary: line)
  case Nil
  then show ?case by simp
next
  case (Cons l f)
  have later: "\<And>ml. ml \<in> set (scan_lines env re f (line + 1) []) \<Longrightarrow> line < line_n ml"
    using scan_lines_bounds [of _ env re f "line + 1"] by fastforce
  have one: "sorted_wrt (<) (map line_n (match_line re l line))"
    by (simp add: match_line_def Let_def)
  show ?case using Cons.IH [of "line + 1"] later one match_line_n [of _ re l line]
    by (auto simp add: scan_lines_Cons sorted_wrt_append simp del: scan_lines.simps)
qed

lemma scan_lines_length: "length (scan_lines env re f line []) \<le> length f"
proof (induction f arbitrary: line)
  case Nil
  then show ?case by simp
next
  case (Cons l f)
  show ?case using Cons.IH [of "line + 1"] match_line_length [of re l line]
    by (simp add: scan_lines_Cons del: scan_lines.simps)
qed

lemma strict_sorted_filter_le1:
  "sorted_wrt (<) (map f xs) \<Longrightarrow> length (filter (\<lambda>x. f x = (k::nat)) xs) \<le> 1"
proof (induction xs)
  case Nil
  then show ?case by simp
next
  case (Cons x xs)
  show ?case
  proof (cases "f x = k")
    case True
    then have "\<And>y. y \<in> set xs \<Longrightarrow> f y \<noteq> k" using Cons.prems by auto
    then have "filter (\<lambda>x. f x = k) xs = []" by (simp add: filter_empty_conv)
    then show ?thesis using True by simp
  next
    case False
    then show ?thesis using Cons by simp
  qed
qed

lemma searchWorker_ignored:
  assumes "Stat env (path job) = StatInfo isDir"
    and "ignored mt (path job) isDir"
  shows "searchWorker env mt (job # jobs) st = searchWorker env mt jobs (st\<lparr>wg_done := wg_done st + 1\<rparr>)"
  using assms by simp

lemma searchWorker_scanned:
  assumes "Stat env (path job) = StatInfo isDir"
    and "\<not> ignored mt (path job) isDir"
    and "Open env (path job) = Inr f"
  shows "searchWorker env mt (job # jobs) st =
     (if scan_lines env (regex job) f 1 [] = []
      then searchWorker env mt jobs (st\<lparr>wg_done := wg_done st + 1\<rparr>)
      else searchWorker env mt jobs
             (st\<lparr>wgResult_added := wgResult_added st + 1,
                 searchResults := searchResults st
                   @ [\<lparr>Path = path job, Lines = scan_lines env (regex job) f 1 []\<rparr>],
                 wg_done := wg_done st + 1\<rparr>))"
  using assms by (simp add: Let_def)

lemma searchWorker_open_fails:
  assumes "Stat env (path job) = StatInfo isDir"
    and "\<not> ignored mt (path job) isDir"
    and "Open env (path job) = Inl e"
  shows "searchWorker env mt (job # jobs) st =
     (ProcessExit (''couldn't open path '' @ path job @ '': '' @ e @ [CHR 0x0A]), st)"
  using assms by simp

text \<open>Every result a worker sends is the scan of one of its jobs, and is not empty.\<close>

lemma searchWorker_results:
  "r \<in> set (searchResults (snd (searchWorker env mt jobs st))) \<Longrightarrow>
   r \<in> set (searchResults st)
   \<or> (\<exists>job f. job \<in> set jobs \<and> Open env (path job) = Inr f
        \<and> Path r = path job \<and> Lines r = scan_lines env (regex job) f 1 []
        \<and> Lines r \<noteq> [])"
proof (induction jobs arbitrary: st)
  case Nil
  then show ?case by simp
next
  case (Cons job jobs)
  show ?case
  proof (cases "Stat env (path job)")
    case StatNotExist
    then show ?thesis using Cons.prems by simp
  next
    case (StatError e)
    then show ?thesis using Cons.prems by simp
  next
    case (StatInfo isDir)
    show ?thesis
    proof (cases "ignored mt (path job) isDir")
      case True
      then have "r \<in> set (searchResults (snd (searchWorker env mt jobs (st\<lparr>wg_done := wg_done st + 1\<rparr>))))"
        using Cons.prems StatInfo by simp
      from Cons.IH [OF this] show ?thesis by auto
    next
      case False
      show ?thesis
      proof (cases "Open env (path job)")
        case (Inl e)
        then show ?thesis using Cons.prems searchWorker_open_fails [OF StatInfo False Inl] by simp
      next
        case (Inr f)
        note step = searchWorker_scanned [OF StatInfo False Inr, of jobs st]
        show ?thesis
        proof (cases "scan_lines env (regex job) f 1 [] = []")
          case True
          then have "r \<in> set (searchResults (snd (searchWorker env mt jobs (st\<lparr>wg_done := wg_done st + 1\<rparr>))))"
            using Cons.prems step by simp
          from Cons.IH [OF this] show ?thesis by auto
        next
          case nonempty: False
          then have "r \<in> set (searchResults (snd (searchWorker env mt jobs
             (st\<lparr>wgResult_added := wgResult_added st + 1,
                 searchResults := searchResults st
                   @ [\<lparr>Path = path job, Lines = scan_lines env (regex job) f 1 []\<rparr>],
                 wg_done := wg_done st + 1\<rparr>))))"
            using Cons.prems step by simp
          from Cons.IH [OF this] show ?thesis using Inr nonempty by auto
        qed
      qed
    qed
  qed
qed

subsection \<open>The marker pattern\<close>

lemma plus_loop_cont:
  assumes body: "\<And>i c k t. body i c k = Some t \<Longrightarrow> \<exists>j c'. k j c' = Some t"
  shows "plus_loop g n body i c k = Some t \<Longrightarrow> \<exists>j c'. k j c' = Some t"
proof (induction n arbitrary: i c)
  case 0
  then show ?case using body by simp
next
  case (Suc n)
  from Suc.prems obtain j c' where
    "(if g
       then (case (if i < j then plus_loop g n body j c' k else None) of
               Some t \<Rightarrow> Some t
             | None \<Rightarrow> k j c')
       else (case k j c' of
               Some t \<Rightarrow> Some t
             | None \<Rightarrow> if i < j then plus_loop g n body j c' k else None)) = Some t"
    using body [of i c _ t] by fastforce
  then have "plus_loop g n body j c' k = Some t \<or> k j c' = Some t"
    by (auto split: if_splits option.splits)
  then show ?case using Suc.IH by blast
qed

text \<open>A match of a sub-pattern succeeds only through its continuation.\<close>

lemma match_from_cont:
  "match_from r s i c k = Some t \<Longrightarrow> \<exists>j c'. k j c' = Some t"
proof (induction r s i c k arbitrary: t rule: match_from.induct)
  case (8 n r s i c k)
  from 8(1) [OF 8(2) [simplified]] show ?case by blast
next
  case (9 r1 r2 s i c k)
  from 9(2) [OF 9(3) [simplified]] obtain j c' where "match_from r2 s j c' k = Some t" by blast
  from 9(1) [OF this] show ?case .
next
  case (10 r1 r2 s i c k)
  show ?case
  proof (cases "match_from r1 s i c k")
    case None
    then have "match_from r2 s i c k = Some t" using 10(3) by simp
    from 10(2) [OF None this] show ?thesis .
  next
    case (Some a)
    then have "match_from r1 s i c k = Some t" using 10(3) by simp
    from 10(1) [OF this] show ?thesis .
  qed
next
  case (11 greedy r s i c k)
  have body: "\<And>i c k t. match_from r s i c k = Some t \<Longrightarrow> \<exists>j c'. k j c' = Some t"
    using 11(1) by blast
  from 11(2) have "plus_loop greedy (length s - i) (\<lambda>i' c' k'. match_from r s i' c' k') i c k = Some t"
    by simp
  then show ?case
    by (rule plus_loop_cont [where body = "\<lambda>i' c' k'. match_from r s i' c' k'", rotated])
       (rule body)
next
  case (12 greedy r s i c k)
  show ?case
  proof (cases "k i c = Some t")
    case True
    then show ?thesis by blast
  next
    case False
    have loop: "plus_loop greedy (length s - i) (\<lambda>i' c' k'. match_from r s i' c' k') i c k = Some t"
      using 12(3) False by (auto split: if_splits option.splits)
    have none: "\<not> greedy \<Longrightarrow> k i c = None"
      using 12(3) False by (auto split: if_splits option.splits)
    have body: "\<And>i c k t. match_from r s i c k = Some t \<Longrightarrow> \<exists>j c'. k j c' = Some t"
    proof (cases greedy)
      case True
      then show "\<And>i c k t. match_from r s i c k = Some t \<Longrightarrow> \<exists>j c'. k j c' = Some t"
        using 12(1) by blast
    next
      case False
      then show "\<And>i c k t. match_from r s i c k = Some t \<Longrightarrow> \<exists>j c'. k j c' = Some t"
        using 12(2) [OF False none [OF False]] by blast
    qed
    from loop show ?thesis
      by (rule plus_loop_cont [where body = "\<lambda>i' c' k'. match_from r s i' c' k'", rotated])
         (rule body)
  qed
next
  case (13 greedy r s i c k)
  show ?case
  proof (cases "k i c = Some t")
    case True
    then show ?thesis by blast
  next
    case False
    have sub: "match_from r s i c k = Some t"
      using 13(3) False by (auto split: if_splits option.splits)
    show ?thesis
    proof (cases greedy)
      case True
      from 13(1) [OF True sub] show ?thesis .
    next
      case ng: False
      have "k i c = None" using 13(3) False ng by (auto split: if_splits option.splits)
      from 13(2) [OF ng this sub] show ?thesis .
    qed
  qed
qed (auto split: if_splits)

lemma match_alternation_literals:
  "ts \<noteq> [] \<Longrightarrow> match_from (alternation (map Literal ts)) s i c k = Some t \<Longrightarrow>
   \<exists>tg \<in> set ts. take (length tg) (drop i s) = tg"
proof (induction ts rule: induct_list012)
  case 1
  then show ?case by simp
next
  case (2 x)
  then show ?case by (simp split: if_splits)
next
  case (3 x y zs)
  then show ?case by (auto split: if_splits option.splits)
qed

lemma search_match:
  "search re s pos = Some (b, e, c) \<Longrightarrow>
   match_from re s b Map.empty (\<lambda>j c. Some (j, c)) = Some (e, c)"
proof (induction re s pos rule: search.induct)
  case (1 re s pos)
  show ?case
  proof (cases "match_from re s pos Map.empty (\<lambda>j c. Some (j, c))")
    case None
    then have "search re s (pos + snd (DecodeRune (drop pos s))) = Some (b, e, c)"
      "\<not> length s < pos" "pos < length s"
      using 1(2) by (auto simp add: search.simps [of re s pos] split: if_splits)
    then show ?thesis using 1(1) None by simp
  next
    case (Some a)
    then show ?thesis using 1(2)
      by (auto simp add: search.simps [of re s pos] split: if_splits prod.splits)
  qed
qed

lemma occurs_Contains:
  assumes "take (length t) (drop i s) = t"
  shows "Contains s t"
proof (cases "t = []")
  case True
  have "(0::nat) \<in> set [0..<Suc (length s)]" by simp
  then show ?thesis using True unfolding Contains_def list_ex_iff by (intro bexI [of _ 0]) simp_all
next
  case False
  then have "i < length s" using assms by (cases "i < length s") auto
  then have "i \<in> set [0..<Suc (length s)]" by simp
  then show ?thesis using assms unfolding Contains_def list_ex_iff by blast
qed

text \<open>The pattern matches only where one of the tags occurs.\<close>

lemma FindSubmatch_tag_occurs:
  assumes "ts \<noteq> []" and "FindSubmatch (tags_regex ts) s \<noteq> []"
  shows "\<exists>tg \<in> set ts. Contains s tg"
proof -
  from assms(2) obtain b e c where "search (tags_regex ts) s 0 = Some (b, e, c)"
    by (auto simp add: FindSubmatch_def split: option.splits)
  from search_match [OF this]
  have "match_from (tags_regex ts) s b Map.empty (\<lambda>j c. Some (j, c)) = Some (e, c)" .
  then obtain j1 c1 K where
    "match_from (Capture 1 (alternation (map Literal ts))) s j1 c1 K = Some (e, c)"
    unfolding tags_regex_def concatenation.simps match_from.simps(9)
    by (blast dest: match_from_cont)
  then obtain K' where "match_from (alternation (map Literal ts)) s j1 c1 K' = Some (e, c)"
    by simp
  from match_alternation_literals [OF assms(1) this]
  show ?thesis using occurs_Contains by blast
qed

text \<open>The pattern on the lines of the example tree, by evaluation of the matcher.\<close>

lemmas rx_defs = tags_regex_def tags_def comment_leader_def comment_closer_def perl_space_def
  word_before_def word_after_def IsWordChar_def FindSubmatch_def slice_def search.simps

lemma find_todo_fix_this:
  "FindSubmatch (tags_regex tags) ''// TODO: fix this''
     = [Some ''// TODO: fix this'', Some ''TODO'', Some ''fix this'']"
  by (simp add: rx_defs)

lemma find_plain_statement: "FindSubmatch (tags_regex tags) ''x := 1'' = []"
  by (simp add: rx_defs)

lemma find_two_tags:
  "FindSubmatch (tags_regex tags) ''# NOTE: a FIXME: b''
     = [Some ''# NOTE: a FIXME: b'', Some ''NOTE'', Some ''a FIXME: b'']"
  by (simp add: rx_defs)

lemma is_text_plain_example:
  "is_text_plain example_env b = (take 5 b \<noteq> ''%PDF-'')"
  by (simp add: is_text_plain_def example_env_def)

lemma scan_a_go:
  "scan_lines example_env (tags_regex tags) [''// TODO: fix this'', ''x := 1'', ''# NOTE: a FIXME: b''] (Suc 0) []
     = [\<lparr>line_n = 1, line_tag = ''TODO'', line_text = ''fix this''\<rparr>,
        \<lparr>line_n = 3, line_tag = ''NOTE'', line_text = ''a FIXME: b''\<rparr>]"
  by (simp add: is_text_plain_example match_line_def find_todo_fix_this find_plain_statement
      find_two_tags bytes_to_string_def)

lemma scan_lines_append_text:
  "(\<And>x. x \<in> set pre \<Longrightarrow> is_text_plain env x) \<Longrightarrow>
   scan_lines env re (pre @ rest) line []
     = scan_lines env re pre line [] @ scan_lines env re rest (line + length pre) []"
proof (induction pre arbitrary: line)
  case Nil
  then show ?case by simp
next
  case (Cons l pre)
  have "scan_lines env re (pre @ rest) (line + 1) []
     = scan_lines env re pre (line + 1) [] @ scan_lines env re rest (line + 1 + length pre) []"
    using Cons.prems by (intro Cons.IH) simp
  then show ?case using Cons.prems
    by (simp add: scan_lines_Cons del: scan_lines.simps)
qed

lemma worker_a_go:
  "searchWorker example_env None [example_job ''a.go''] worker_start
     = (AwaitingJob,
        \<lparr>stdout = [],
         searchResults = [\<lparr>Path = ''a.go'',
                            Lines = [\<lparr>line_n = 1, line_tag = ''TODO'', line_text = ''fix this''\<rparr>,
                                     \<lparr>line_n = 3, line_tag = ''NOTE'', line_text = ''a FIXME: b''\<rparr>]\<rparr>],
         wg_done = 1, wgResult_added = 1\<rparr>)"
proof -
  have "Stat example_env ''a.go'' = StatInfo False"
    "Open example_env ''a.go'' = Inr [''// TODO: fix this'', ''x := 1'', ''# NOTE: a FIXME: b'']"
    by (simp_all add: example_env_def)
  then show ?thesis
    by (simp add: example_job_def ignored_def worker_start_def scan_a_go Let_def
        del: scan_lines.simps)
qed

subsection \<open>Claims about the scan\<close>

text \<open>
  C2. The pattern applied to the line \<open>// TODO: fix this\<close> gives the tag \<open>TODO\<close> and the
  text \<open>fix this\<close>, without the separator. So in every file that holds this line, after
  any lines \<open>pre\<close> that are sniffed as text and when the line itself is (so that the worker
  reaches it and applies the pattern), the scan has exactly one match for the number of
  this line, with that tag and that text.
\<close>

theorem todo_line_match:
  assumes "\<forall>x \<in> set pre. is_text_plain env x" and "is_text_plain env ''// TODO: fix this''"
  shows "FindSubmatch (tags_regex tags) ''// TODO: fix this''
           = [Some ''// TODO: fix this'', Some ''TODO'', Some ''fix this'']
       \<and> filter (\<lambda>ml. line_n ml = Suc (length pre))
            (scan_lines env (tags_regex tags) (pre @ ''// TODO: fix this'' # post) 1 [])
           = [\<lparr>line_n = Suc (length pre), line_tag = ''TODO'', line_text = ''fix this''\<rparr>]"
proof -
  let ?re = "tags_regex tags"
  let ?l = "''// TODO: fix this''"
  let ?ml = "\<lparr>line_n = Suc (length pre), line_tag = ''TODO'', line_text = ''fix this''\<rparr>"
  have ml: "match_line ?re ?l (Suc (length pre)) = [?ml]"
    by (simp add: match_line_def find_todo_fix_this bytes_to_string_def)
  have split: "scan_lines env ?re (pre @ ?l # post) 1 []
      = scan_lines env ?re pre 1 [] @ ?ml # scan_lines env ?re post (Suc (Suc (length pre))) []"
    using assms ml scan_lines_append_text [of pre env ?re "?l # post" 1]
    by (simp add: scan_lines_Cons del: scan_lines.simps)
  have before: "filter (\<lambda>ml. line_n ml = Suc (length pre)) (scan_lines env ?re pre 1 []) = []"
    using scan_lines_bounds [of _ env ?re pre 1] by (fastforce simp add: filter_empty_conv)
  have after: "filter (\<lambda>ml. line_n ml = Suc (length pre))
                 (scan_lines env ?re post (Suc (Suc (length pre))) []) = []"
    using scan_lines_bounds [of _ env ?re post "Suc (Suc (length pre))"]
    by (fastforce simp add: filter_empty_conv)
  show ?thesis using find_todo_fix_this split before after by simp
qed

theorem todo_line_match_witness:
  "is_text_plain example_env ''package main''
   \<and> is_text_plain example_env ''// TODO: fix this''
   \<and> filter (\<lambda>ml. line_n ml = 2)
        (scan_lines example_env (tags_regex tags)
           ([''package main''] @ ''// TODO: fix this'' # [''// TODO: fix this  '']) 1 [])
       = [\<lparr>line_n = 2, line_tag = ''TODO'', line_text = ''fix this''\<rparr>]"
  using todo_line_match [of "[''package main'']" example_env "[''// TODO: fix this  '']"]
  by (simp add: is_text_plain_example numeral_2_eq_2)

text \<open>
  C3. For any file content (and any pattern), the scan of a file has line numbers that are
  strictly increasing in order of appearance, each between 1 and the number of lines, and
  at most one match for every line number; the same holds for the lines of every result a
  worker sends.
\<close>

theorem scan_line_numbers:
  "sorted_wrt (<) (map line_n (scan_lines env re f 1 []))
   \<and> (\<forall>ml \<in> set (scan_lines env re f 1 []). 1 \<le> line_n ml \<and> line_n ml \<le> length f)
   \<and> (\<forall>k. length (filter (\<lambda>ml. line_n ml = k) (scan_lines env re f 1 [])) \<le> 1)
   \<and> (\<forall>r \<in> set (searchResults (snd (searchWorker env mt jobs worker_start))).
        sorted_wrt (<) (map line_n (Lines r))
        \<and> (\<forall>ml \<in> set (Lines r). 1 \<le> line_n ml)
        \<and> (\<forall>k. length (filter (\<lambda>ml. line_n ml = k) (Lines r)) \<le> 1))"
proof -
  have a: "\<And>re f. sorted_wrt (<) (map line_n (scan_lines env re f 1 []))"
    by (rule scan_lines_sorted)
  have b: "\<And>re f ml. ml \<in> set (scan_lines env re f 1 []) \<Longrightarrow> 1 \<le> line_n ml \<and> line_n ml \<le> length f"
    using scan_lines_bounds [of _ env _ _ 1] by fastforce
  have c: "\<And>re f k. length (filter (\<lambda>ml. line_n ml = k) (scan_lines env re f 1 [])) \<le> 1"
    using a by (rule strict_sorted_filter_le1)
  have d: "sorted_wrt (<) (map line_n (Lines r))
        \<and> (\<forall>ml \<in> set (Lines r). 1 \<le> line_n ml)
        \<and> (\<forall>k. length (filter (\<lambda>ml. line_n ml = k) (Lines r)) \<le> 1)"
    if "r \<in> set (searchResults (snd (searchWorker env mt jobs worker_start)))" for r
  proof -
    from searchWorker_results [OF that] obtain job :: "regex searchJob" and f where
      "Lines r = scan_lines env (regex job) f 1 []"
      by (auto simp add: worker_start_def)
    then show ?thesis using a b c by simp
  qed
  show ?thesis using a b c d by blast
qed

theorem scan_line_numbers_witness:
  "scan_lines example_env (tags_regex tags) [''// TODO: fix this'', ''x := 1'', ''# NOTE: a FIXME: b''] 1 []
     = [\<lparr>line_n = 1, line_tag = ''TODO'', line_text = ''fix this''\<rparr>,
        \<lparr>line_n = 3, line_tag = ''NOTE'', line_text = ''a FIXME: b''\<rparr>]
   \<and> sorted_wrt (<) (map line_n
        (scan_lines example_env (tags_regex tags) [''// TODO: fix this'', ''x := 1'', ''# NOTE: a FIXME: b''] 1 []))
   \<and> length (filter (\<lambda>ml. line_n ml = 3)
        (scan_lines example_env (tags_regex tags) [''// TODO: fix this'', ''x := 1'', ''# NOTE: a FIXME: b''] 1 [])) \<le> 1
   \<and> map (\<lambda>r. map line_n (Lines r))
        (searchResults (snd (searchWorker example_env None [example_job ''a.go''] worker_start)))
       = [[1, 3]]
   \<and> list_all (\<lambda>r. sorted_wrt (<) (map line_n (Lines r)))
        (searchResults (snd (searchWorker example_env None [example_job ''a.go''] worker_start)))"
  using scan_line_numbers [of example_env "tags_regex tags"
      "[''// TODO: fix this'', ''x := 1'', ''# NOTE: a FIXME: b'']" None "[example_job ''a.go'']"]
  by (simp add: scan_a_go worker_a_go del: scan_lines.simps searchWorker.simps)

text \<open>
  C4. For a file that a worker scans (the path is stat'ed, not ignored and opened), a
  result is sent if and only if the scan found at least one match: the worker's state after
  the job holds one more result when the scan is not empty and no more result when it is
  empty. No result a worker ever sends has an empty line list. In particular a file in
  which no line contains any of the tags gives no result under the marker pattern.
\<close>

theorem result_iff_matches:
  "(Stat env (path job) = StatInfo isDir \<and> \<not> ignored mt (path job) isDir
      \<and> Open env (path job) = Inr f
     \<longrightarrow> searchWorker env mt [job] st
          = (AwaitingJob,
             if scan_lines env (regex job) f 1 [] = []
             then st\<lparr>wg_done := wg_done st + 1\<rparr>
             else st\<lparr>wgResult_added := wgResult_added st + 1,
                     searchResults := searchResults st
                       @ [\<lparr>Path = path job, Lines = scan_lines env (regex job) f 1 []\<rparr>],
                     wg_done := wg_done st + 1\<rparr>))
   \<and> (\<forall>r \<in> set (searchResults (snd (searchWorker env mt jobs worker_start))). Lines r \<noteq> [])
   \<and> (Stat env (path job) = StatInfo isDir \<and> Open env (path job) = Inr f
      \<and> regex job = tags_regex tags \<and> (\<forall>l \<in> set f. \<forall>tg \<in> set tags. \<not> Contains l tg)
     \<longrightarrow> searchResults (snd (searchWorker env mt [job] st)) = searchResults st)"
proof -
  have a: "searchWorker env mt [job] st
          = (AwaitingJob,
             if scan_lines env (regex job) f 1 [] = []
             then st\<lparr>wg_done := wg_done st + 1\<rparr>
             else st\<lparr>wgResult_added := wgResult_added st + 1,
                     searchResults := searchResults st
                       @ [\<lparr>Path = path job, Lines = scan_lines env (regex job) f 1 []\<rparr>],
                     wg_done := wg_done st + 1\<rparr>)"
    if "Stat env (path job) = StatInfo isDir" "\<not> ignored mt (path job) isDir"
      "Open env (path job) = Inr f"
    using searchWorker_scanned [OF that, of "[]" st] by simp
  have b: "Lines r \<noteq> []"
    if "r \<in> set (searchResults (snd (searchWorker env mt jobs worker_start)))" for r
    using searchWorker_results [OF that] by (auto simp add: worker_start_def)
  have none: "scan_lines env (tags_regex tags) f line [] = []"
    if "\<forall>l \<in> set f. \<forall>tg \<in> set tags. \<not> Contains l tg" for line
    using that
  proof (induction f arbitrary: line)
    case Nil
    then show ?case by simp
  next
    case (Cons l f)
    have "FindSubmatch (tags_regex tags) l = []"
      using FindSubmatch_tag_occurs [of tags l] Cons.prems by (auto simp add: tags_def)
    then have "match_line (tags_regex tags) l line = []" by (simp add: match_line_def)
    then show ?case using Cons by (simp add: scan_lines_Cons del: scan_lines.simps)
  qed
  have c: "searchResults (snd (searchWorker env mt [job] st)) = searchResults st"
    if s: "Stat env (path job) = StatInfo isDir" and o: "Open env (path job) = Inr f"
      and r: "regex job = tags_regex tags"
      and z: "\<forall>l \<in> set f. \<forall>tg \<in> set tags. \<not> Contains l tg"
  proof (cases "ignored mt (path job) isDir")
    case True
    then show ?thesis using s by simp
  next
    case False
    show ?thesis using a [OF s False o] none [OF z, of 1] r by simp
  qed
  show ?thesis using a b c by blast
qed

theorem result_iff_matches_witness:
  "Stat example_env (path (example_job ''a.go'')) = StatInfo False
   \<and> \<not> ignored None (path (example_job ''a.go'')) False
   \<and> searchResults (snd (searchWorker example_env None [example_job ''a.go''] worker_start))
       = [\<lparr>Path = ''a.go'',
           Lines = [\<lparr>line_n = 1, line_tag = ''TODO'', line_text = ''fix this''\<rparr>,
                    \<lparr>line_n = 3, line_tag = ''NOTE'', line_text = ''a FIXME: b''\<rparr>]\<rparr>]
   \<and> Open example_env (path (example_job ''plain.txt'')) = Inr [''x := 1'', ''hello world'']
   \<and> list_all (\<lambda>l. list_all (\<lambda>tg. \<not> Contains l tg) tags) [''x := 1'', ''hello world'']
   \<and> searchResults (snd (searchWorker example_env None [example_job ''plain.txt''] worker_start)) = []"
proof -
  have s: "\<And>p. Stat example_env (path (example_job p)) = StatInfo False \<or> p = ''gone''"
    by (simp add: example_env_def example_job_def)
  have i: "\<And>p d. \<not> ignored None p d"
    by (simp add: ignored_def)
  have o1: "Open example_env (path (example_job ''a.go''))
      = Inr [''// TODO: fix this'', ''x := 1'', ''# NOTE: a FIXME: b'']"
    by (simp add: example_env_def example_job_def)
  have o2: "Open example_env (path (example_job ''plain.txt'')) = Inr [''x := 1'', ''hello world'']"
    by (simp add: example_env_def example_job_def)
  have r: "\<And>p. regex (example_job p) = tags_regex tags" "\<And>p. path (example_job p) = p"
    by (simp_all add: example_job_def)
  have z: "\<forall>l \<in> set [''x := 1'', ''hello world'']. \<forall>tg \<in> set tags. \<not> Contains l tg"
    by (simp add: Contains_def tags_def)
  have a: "searchResults (snd (searchWorker example_env None [example_job ''a.go''] worker_start))
       = [\<lparr>Path = ''a.go'',
           Lines = [\<lparr>line_n = 1, line_tag = ''TODO'', line_text = ''fix this''\<rparr>,
                    \<lparr>line_n = 3, line_tag = ''NOTE'', line_text = ''a FIXME: b''\<rparr>]\<rparr>]"
    using result_iff_matches [of example_env "example_job ''a.go''" False None
        "[''// TODO: fix this'', ''x := 1'', ''# NOTE: a FIXME: b'']" worker_start "[]"]
      s [of "''a.go''"] i o1
    by (simp add: r scan_a_go worker_start_def del: scan_lines.simps searchWorker.simps)
  have b: "searchResults (snd (searchWorker example_env None [example_job ''plain.txt''] worker_start)) = []"
    using result_iff_matches [of example_env "example_job ''plain.txt''" False None
        "[''x := 1'', ''hello world'']" worker_start "[]"]
      s [of "''plain.txt''"] o2 z
    by (simp add: r worker_start_def del: scan_lines.simps searchWorker.simps)
  show ?thesis using s [of "''a.go''"] i a o2 z b by (simp add: list_all_iff)
qed

lemma scan_lines_stop:
  assumes "\<And>x. x \<in> set pre \<Longrightarrow> is_text_plain env x" and "\<not> is_text_plain env l"
  shows "scan_lines env re (pre @ l # post) line [] = scan_lines env re pre line []"
  using scan_lines_append_text [of pre env re "l # post" line] assms by simp

text \<open>
  C5. The scan of a file stops at the first line that is not sniffed as plain text: the
  scan of \<open>pre @ l # post\<close>, where the lines of \<open>pre\<close> are text and \<open>l\<close> is not, is the scan
  of \<open>pre\<close> alone, whatever \<open>post\<close> holds, and no match has a line number beyond \<open>pre\<close>.
  Hence a file whose first line is not text gives no result.
\<close>

theorem scan_stops_at_non_text:
  "((\<forall>x \<in> set pre. is_text_plain env x) \<and> \<not> is_text_plain env l
      \<longrightarrow> scan_lines env re (pre @ l # post) 1 [] = scan_lines env re pre 1 []
          \<and> (\<forall>ml \<in> set (scan_lines env re (pre @ l # post) 1 []). line_n ml \<le> length pre))
   \<and> (\<not> is_text_plain env l \<and> Stat env (path job) = StatInfo isDir
        \<and> Open env (path job) = Inr (l # post)
      \<longrightarrow> searchResults (snd (searchWorker env mt [job] st)) = searchResults st)"
proof -
  have a: "scan_lines env re (pre @ l # post) 1 [] = scan_lines env re pre 1 []"
    if "\<forall>x \<in> set pre. is_text_plain env x" "\<not> is_text_plain env l" for re
    using that by (intro scan_lines_stop) simp_all
  have b: "\<forall>ml \<in> set (scan_lines env re (pre @ l # post) 1 []). line_n ml \<le> length pre"
    if "\<forall>x \<in> set pre. is_text_plain env x" "\<not> is_text_plain env l"
    using a [OF that] scan_lines_bounds [of _ env re pre 1] by fastforce
  have c: "searchResults (snd (searchWorker env mt [job] st)) = searchResults st"
    if n: "\<not> is_text_plain env l" and s: "Stat env (path job) = StatInfo isDir"
      and o: "Open env (path job) = Inr (l # post)"
  proof (cases "ignored mt (path job) isDir")
    case True
    then show ?thesis using s by simp
  next
    case False
    have "scan_lines env (regex job) (l # post) 1 [] = []" using n by simp
    then show ?thesis using searchWorker_scanned [OF s False o, of "[]" st] by simp
  qed
  show ?thesis using a b c by blast
qed

theorem scan_stops_at_non_text_witness:
  "is_text_plain example_env ''// TODO: fix this''
   \<and> \<not> is_text_plain example_env ''%PDF-1.4''
   \<and> scan_lines example_env (tags_regex tags)
        ([''// TODO: fix this''] @ ''%PDF-1.4'' # [''// TODO: never read'']) 1 []
       = [\<lparr>line_n = 1, line_tag = ''TODO'', line_text = ''fix this''\<rparr>]
   \<and> Open example_env (path (example_job ''b.pdf'')) = Inr (''%PDF-1.4'' # [''// TODO: never read''])
   \<and> searchResults (snd (searchWorker example_env None [example_job ''b.pdf''] worker_start)) = []"
proof -
  have t: "\<forall>x \<in> set [''// TODO: fix this'']. is_text_plain example_env x"
    "\<not> is_text_plain example_env ''%PDF-1.4''"
    by (simp_all add: is_text_plain_example)
  have s: "Stat example_env (path (example_job ''b.pdf'')) = StatInfo False"
    by (simp add: example_env_def example_job_def)
  have o: "Open example_env (path (example_job ''b.pdf'')) = Inr (''%PDF-1.4'' # [''// TODO: never read''])"
    by (simp add: example_env_def example_job_def)
  have one: "scan_lines example_env (tags_regex tags) [''// TODO: fix this''] 1 []
      = [\<lparr>line_n = 1, line_tag = ''TODO'', line_text = ''fix this''\<rparr>]"
    by (simp add: is_text_plain_example match_line_def find_todo_fix_this bytes_to_string_def)
  note inst = scan_stops_at_non_text [of "[''// TODO: fix this'']" example_env "''%PDF-1.4''"
      "tags_regex tags" "[''// TODO: never read'']" "example_job ''b.pdf''" False None worker_start]
  have a: "scan_lines example_env (tags_regex tags)
        ([''// TODO: fix this''] @ ''%PDF-1.4'' # [''// TODO: never read'']) 1 []
       = [\<lparr>line_n = 1, line_tag = ''TODO'', line_text = ''fix this''\<rparr>]"
    using inst t one by simp
  have b: "searchResults (snd (searchWorker example_env None [example_job ''b.pdf''] worker_start)) = []"
    using inst t(2) s o by (simp add: worker_start_def del: searchWorker.simps)
  show ?thesis using t a o b by simp
qed

subsection \<open>Failures of stat and open\<close>

text \<open>
  What the worker does when \<^verbatim>\<open>os.Stat\<close> fails: it prints its report and leaves its loop
  by \<^verbatim>\<open>return\<close>, without \<^verbatim>\<open>wg.Done()\<close> and without looking at the jobs that follow.
  (The branch for ignored paths, next to it, calls \<^verbatim>\<open>wg.Done()\<close> and continues.)
\<close>

lemma searchWorker_stat_failure_returns:
  assumes "Stat env (path job) = StatNotExist \<or> Stat env (path job) = StatError e"
  shows "fst (searchWorker env mt (job # jobs) st) = WorkerReturned
     \<and> wg_done (snd (searchWorker env mt (job # jobs) st)) = wg_done st
     \<and> searchResults (snd (searchWorker env mt (job # jobs) st)) = searchResults st"
  using assms by auto

text \<open>
  C1 as stated does not hold: a file that cannot be opened ends the whole process. With the
  jobs \<open>locked\<close> (cannot be opened) and then \<open>a.go\<close>, the worker ends in
  \<^verbatim>\<open>log.Fatalf\<close> with no job marked complete and no result sent, although \<open>a.go\<close> alone
  gives a result with two matches.
\<close>

theorem open_failure_counterexample:
  "searchWorker example_env None [example_job ''locked'', example_job ''a.go''] worker_start
     = (ProcessExit (''couldn't open path locked: permission denied'' @ [CHR 0x0A]), worker_start)
   \<and> searchResults worker_start = [] \<and> wg_done worker_start = 0
   \<and> searchWorker example_env None [example_job ''a.go''] worker_start
     = (AwaitingJob,
        \<lparr>stdout = [],
         searchResults = [\<lparr>Path = ''a.go'',
                            Lines = [\<lparr>line_n = 1, line_tag = ''TODO'', line_text = ''fix this''\<rparr>,
                                     \<lparr>line_n = 3, line_tag = ''NOTE'', line_text = ''a FIXME: b''\<rparr>]\<rparr>],
         wg_done = 1, wgResult_added = 1\<rparr>)"
proof -
  have "Stat example_env ''locked'' = StatInfo False"
    "Open example_env ''locked'' = Inl ''permission denied''"
    by (simp_all add: example_env_def)
  then have "searchWorker example_env None [example_job ''locked'', example_job ''a.go''] worker_start
     = (ProcessExit (''couldn't open path locked: permission denied'' @ [CHR 0x0A]), worker_start)"
    by (simp add: example_job_def ignored_def)
  then show ?thesis using worker_a_go by (simp add: worker_start_def)
qed

text \<open>
  C1, amended. A job whose file cannot be stat'ed is reported on standard output. A job
  whose file is stat'ed and not ignored but cannot be opened is fatal: the message is
  logged and the process exits, with the state of the worker as it was (the job is not
  marked complete, no result is sent, no further job is taken). A job whose path is ignored
  or whose file is opened is marked complete, prints nothing, keeps the results sent before
  it, and the worker goes on with the jobs that follow.
\<close>

theorem searchWorker_failures:
  "(Stat env (path job) = StatNotExist
      \<longrightarrow> stdout (snd (searchWorker env mt (job # jobs) st))
          = stdout st @ [path job @ '' does not exist.'' @ [CHR 0x0A]])
   \<and> (Stat env (path job) = StatError e
      \<longrightarrow> stdout (snd (searchWorker env mt (job # jobs) st))
          = stdout st @ [''Error checking '' @ path job @ '': '' @ e @ [CHR 0x0A]])
   \<and> (Stat env (path job) = StatInfo isDir \<and> \<not> ignored mt (path job) isDir
        \<and> Open env (path job) = Inl e
      \<longrightarrow> searchWorker env mt (job # jobs) st
          = (ProcessExit (''couldn't open path '' @ path job @ '': '' @ e @ [CHR 0x0A]), st))
   \<and> (Stat env (path job) = StatInfo isDir
        \<and> (ignored mt (path job) isDir \<or> Open env (path job) = Inr f)
      \<longrightarrow> (\<exists>st' new. searchWorker env mt (job # jobs) st = searchWorker env mt jobs st'
            \<and> wg_done st' = wg_done st + 1 \<and> stdout st' = stdout st
            \<and> searchResults st' = searchResults st @ new))"
proof -
  have c: "searchWorker env mt (job # jobs) st
          = (ProcessExit (''couldn't open path '' @ path job @ '': '' @ e @ [CHR 0x0A]), st)"
    if "Stat env (path job) = StatInfo isDir" "\<not> ignored mt (path job) isDir"
      "Open env (path job) = Inl e"
    using that by (rule searchWorker_open_fails)
  have d: "\<exists>st' new. searchWorker env mt (job # jobs) st = searchWorker env mt jobs st'
            \<and> wg_done st' = wg_done st + 1 \<and> stdout st' = stdout st
            \<and> searchResults st' = searchResults st @ new"
    if s: "Stat env (path job) = StatInfo isDir"
      and io: "ignored mt (path job) isDir \<or> Open env (path job) = Inr f"
  proof (cases "ignored mt (path job) isDir")
    case True
    have "searchWorker env mt (job # jobs) st = searchWorker env mt jobs (st\<lparr>wg_done := wg_done st + 1\<rparr>)"
      using s True by (rule searchWorker_ignored)
    then show ?thesis
      by (intro exI [of _ "st\<lparr>wg_done := wg_done st + 1\<rparr>"] exI [of _ "[]"]) simp
  next
    case False
    then have o: "Open env (path job) = Inr f" using io by simp
    note step = searchWorker_scanned [OF s False o, of jobs st]
    show ?thesis
    proof (cases "scan_lines env (regex job) f 1 [] = []")
      case True
      then show ?thesis using step
        by (intro exI [of _ "st\<lparr>wg_done := wg_done st + 1\<rparr>"] exI [of _ "[]"]) simp
    next
      case ne: False
      then show ?thesis using step
        by (intro exI [of _ "st\<lparr>wgResult_added := wgResult_added st + 1,
                 searchResults := searchResults st
                   @ [\<lparr>Path = path job, Lines = scan_lines env (regex job) f 1 []\<rparr>],
                 wg_done := wg_done st + 1\<rparr>"]
              exI [of _ "[\<lparr>Path = path job, Lines = scan_lines env (regex job) f 1 []\<rparr>]"]) simp
    qed
  qed
  show ?thesis using c d by auto
qed

theorem searchWorker_failures_witness:
  "Stat example_env (path (example_job ''gone'')) = StatNotExist
   \<and> stdout (snd (searchWorker example_env None [example_job ''gone'', example_job ''a.go''] worker_start))
       = [''gone does not exist.'' @ [CHR 0x0A]]
   \<and> Stat example_env (path (example_job ''locked'')) = StatInfo False
   \<and> \<not> ignored None (path (example_job ''locked'')) False
   \<and> Open example_env (path (example_job ''locked'')) = Inl ''permission denied''
   \<and> searchWorker example_env None [example_job ''locked'', example_job ''a.go''] worker_start
       = (ProcessExit (''couldn't open path locked: permission denied'' @ [CHR 0x0A]), worker_start)
   \<and> Open example_env (path (example_job ''plain.txt'')) = Inr [''x := 1'', ''hello world'']
   \<and> (\<exists>st'. searchWorker example_env None [example_job ''plain.txt'', example_job ''a.go''] worker_start
              = searchWorker example_env None [example_job ''a.go''] st'
            \<and> wg_done st' = 1)"
proof -
  have p: "\<And>p. path (example_job p) = p" by (simp add: example_job_def)
  have s1: "Stat example_env (path (example_job ''gone'')) = StatNotExist"
    by (simp add: example_env_def p)
  have s2: "\<And>q. q \<noteq> ''gone'' \<Longrightarrow> Stat example_env (path (example_job q)) = StatInfo False"
    by (simp add: example_env_def p)
  have i: "\<And>q d. \<not> ignored None q d" by (simp add: ignored_def)
  have o1: "Open example_env (path (example_job ''locked'')) = Inl ''permission denied''"
    by (simp add: example_env_def p)
  have o2: "Open example_env (path (example_job ''plain.txt'')) = Inr [''x := 1'', ''hello world'']"
    by (simp add: example_env_def p)
  have a: "stdout (snd (searchWorker example_env None [example_job ''gone'', example_job ''a.go''] worker_start))
       = [''gone does not exist.'' @ [CHR 0x0A]]"
    using searchWorker_failures [of example_env "example_job ''gone''" None "[example_job ''a.go'']"
        worker_start] s1
    by (simp add: p worker_start_def del: searchWorker.simps)
  have b: "searchWorker example_env None [example_job ''locked'', example_job ''a.go''] worker_start
       = (ProcessExit (''couldn't open path locked: permission denied'' @ [CHR 0x0A]), worker_start)"
    using searchWorker_failures [of example_env "example_job ''locked''" None "[example_job ''a.go'']"
        worker_start "''permission denied''" False] s2 [of "''locked''"] i o1
    by (simp add: p del: searchWorker.simps)
  have c: "\<exists>st'. searchWorker example_env None [example_job ''plain.txt'', example_job ''a.go''] worker_start
              = searchWorker example_env None [example_job ''a.go''] st'
            \<and> wg_done st' = 1"
    using searchWorker_failures [of example_env "example_job ''plain.txt''" None "[example_job ''a.go'']"
        worker_start _ False "[''x := 1'', ''hello world'']"] s2 [of "''plain.txt''"] o2
    by (auto simp add: worker_start_def simp del: searchWorker.simps)
  show ?thesis using s1 a s2 [of "''locked''"] i o1 b o2 c by simp
qed

subsection \<open>The result sink\<close>

lemma Sprint_length_pos: "0 < length (Sprint k)"
  by (subst Sprint.simps) simp

lemma Sprint_length_mono: "a \<le> b \<Longrightarrow> length (Sprint a) \<le> length (Sprint b)"
proof (induction b arbitrary: a rule: Sprint.induct)
  case (1 b)
  show ?case
  proof (cases "b < 10")
    case True
    then have "a < 10" using 1(2) by simp
    then show ?thesis using True by (simp add: Sprint.simps [of a] Sprint.simps [of b])
  next
    case False
    show ?thesis
    proof (cases "a < 10")
      case True
      then have "length (Sprint a) = 1" by (simp add: Sprint.simps [of a])
      moreover have "1 \<le> length (Sprint b)"
        using Sprint_length_pos [of b] by (cases "Sprint b") simp_all
      ultimately show ?thesis by simp
    next
      case a10: False
      have "a div 10 \<le> b div 10" using 1(2) by (rule div_le_mono)
      from 1(1) [OF False this] show ?thesis using False a10
        by (simp add: Sprint.simps [of a] Sprint.simps [of b])
    qed
  qed
qed

lemma fold_max_ge_init:
  "mx \<le> fold (\<lambda>line mx. if line_n line > mx then line_n line else mx) ls mx"
proof (induction ls arbitrary: mx)
  case Nil
  then show ?case by simp
next
  case (Cons l ls)
  show ?case using Cons [of "if line_n l > mx then line_n l else mx"]
    by (auto split: if_splits)
qed

lemma fold_max_ge_elem:
  "l \<in> set ls \<Longrightarrow> line_n l \<le> fold (\<lambda>line mx. if line_n line > mx then line_n line else mx) ls mx"
proof (induction ls arbitrary: mx)
  case Nil
  then show ?case by simp
next
  case (Cons x ls)
  show ?case
  proof (cases "l = x")
    case True
    have "(if line_n x > mx then line_n x else mx)
        \<le> fold (\<lambda>line mx. if line_n line > mx then line_n line else mx) ls
             (if line_n x > mx then line_n x else mx)"
      by (rule fold_max_ge_init)
    then show ?thesis using True by (auto split: if_splits)
  next
    case False
    then have "l \<in> set ls" using Cons.prems by simp
    from Cons.IH [OF this] show ?thesis by simp
  qed
qed

lemma MaxLineNumber_ge: "l \<in> set (Lines r) \<Longrightarrow> line_n l \<le> MaxLineNumber r"
  unfolding MaxLineNumber_def by (rule fold_max_ge_elem)

lemma padLineNumber_ok:
  assumes "k \<le> mx"
  shows "padLineNumber k mx
     = Inr (''[Line '' @ replicate (length (Sprint mx) - length (Sprint k)) CHR '' '' @ Sprint k @ ''] '')"
  using Sprint_length_mono [OF assms] by (simp add: padLineNumber_def Let_def)

text \<open>Without a blame table every line is printed without blame.\<close>

lemma print_lines_no_blame:
  assumes "\<And>l. l \<in> set ls \<Longrightarrow> line_n l \<le> MaxLineNumber r"
  shows "print_lines P (Inl e) r ls out = Inr (out @ map (line_without_blame P r) ls)"
  using assms
proof (induction ls arbitrary: out)
  case Nil
  then show ?case by simp
next
  case (Cons l ls)
  have "line_n l \<le> MaxLineNumber r" using Cons.prems by simp
  from padLineNumber_ok [OF this] show ?case using Cons
    by (simp add: line_without_blame_def Let_def)
qed

text \<open>The loop over the lines never panics and prints one line per match.\<close>

lemma print_lines_step:
  assumes "line_n l \<le> MaxLineNumber r"
  shows "\<exists>x. print_lines P gb r (l # ls) out = print_lines P gb r ls (out @ [x])"
proof -
  note pad = padLineNumber_ok [OF assms]
  show ?thesis
  proof (cases gb)
    case (Inl err)
    then show ?thesis using pad by (simp add: Let_def) (rule exI, rule refl)
  next
    case (Inr b)
    show ?thesis
    proof (cases "BlameLine b (of_nat (line_n l))")
      case (Inl err)
      then show ?thesis using pad Inr by (simp add: Let_def) (rule exI, rule refl)
    next
      case bl: (Inr blame)
      then show ?thesis using pad Inr by (simp add: Let_def) (rule exI, rule refl)
    qed
  qed
qed

lemma print_lines_total:
  assumes "\<And>l. l \<in> set ls \<Longrightarrow> line_n l \<le> MaxLineNumber r"
  shows "\<exists>out'. print_lines P gb r ls out = Inr out' \<and> length out' = length out + length ls"
  using assms
proof (induction ls arbitrary: out)
  case Nil
  then show ?case by simp
next
  case (Cons l ls)
  have "line_n l \<le> MaxLineNumber r" using Cons.prems by simp
  from print_lines_step [OF this] obtain x where
    x: "print_lines P gb r (l # ls) out = print_lines P gb r ls (out @ [x])" by blast
  have "\<exists>out'. print_lines P gb r ls (out @ [x]) = Inr out'
          \<and> length out' = length (out @ [x]) + length ls"
    using Cons.prems by (intro Cons.IH) simp
  then show ?case unfolding x by simp
qed

lemma PrintResult_total: "fst (PrintResult P g rs st) = None"
proof (induction rs arbitrary: st)
  case Nil
  then show ?case by simp
next
  case (Cons r rs)
  obtain out where "print_lines P (BlameFile g (Path r)) r (Lines r)
      (printed st @ [stylizeFilename P (Path r) (length (Lines r))]) = Inr out"
    using print_lines_total [of "Lines r" r P] MaxLineNumber_ge by blast
  then show ?case using Cons by (simp add: Let_def)
qed

lemma PrintResult_done: "wgResult_done (snd (PrintResult P g rs st)) = wgResult_done st + length rs"
proof (induction rs arbitrary: st)
  case Nil
  then show ?case by simp
next
  case (Cons r rs)
  obtain out where "print_lines P (BlameFile g (Path r)) r (Lines r)
      (printed st @ [stylizeFilename P (Path r) (length (Lines r))]) = Inr out"
    using print_lines_total [of "Lines r" r P] MaxLineNumber_ge by blast
  then show ?case using Cons by (simp add: Let_def)
qed

lemma BlameFile_tool_fails:
  assumes "Abs g p = Inr a" and "Wait g a = Some msg"
  shows "\<exists>e. BlameFile g p = Inl e"
  using assms by (auto simp add: BlameFile_def split: option.splits sum.splits)

lemma Sprint_1: "Sprint 1 = ''1''"
  by (simp add: Sprint.simps char_of_eq_iff)

lemma Sprint_12: "Sprint 12 = ''12''"
  by (simp add: Sprint.simps char_of_eq_iff)

text \<open>
  C9. When \<open>BlameFile\<close> fails for the file of a result (as it does when the tool exits with
  a non-zero status), the sink prints the header, then every matched line of the result in
  order, each as line number and text with no blame, then the empty line, marks the result
  done and goes on with the results that follow. The sink never aborts: whatever the blame
  outcomes, it handles every result it receives.
\<close>

theorem blame_failure_is_soft:
  "(BlameFile g (Path r) = Inl e
      \<longrightarrow> PrintResult P g (r # rs) st
          = PrintResult P g rs
              (st\<lparr>printed := printed st @ [stylizeFilename P (Path r) (length (Lines r))]
                               @ map (line_without_blame P r) (Lines r) @ [[]],
                  wgResult_done := wgResult_done st + 1\<rparr>))
   \<and> (Abs g (Path r) = Inr a \<and> Wait g a = Some msg \<longrightarrow> (\<exists>e'. BlameFile g (Path r) = Inl e'))
   \<and> fst (PrintResult P g rs' st) = None
   \<and> wgResult_done (snd (PrintResult P g rs' st)) = wgResult_done st + length rs'"
proof -
  have a: "PrintResult P g (r # rs) st
          = PrintResult P g rs
              (st\<lparr>printed := printed st @ [stylizeFilename P (Path r) (length (Lines r))]
                               @ map (line_without_blame P r) (Lines r) @ [[]],
                  wgResult_done := wgResult_done st + 1\<rparr>)"
    if "BlameFile g (Path r) = Inl e"
    using that print_lines_no_blame [of "Lines r" r P e] MaxLineNumber_ge [of _ r]
    by (simp add: Let_def)
  show ?thesis using a BlameFile_tool_fails PrintResult_total PrintResult_done by blast
qed

theorem blame_failure_is_soft_witness:
  "BlameFile example_git ''a.go'' = Inl (OsError ''git blame failed: exit status 128'')
   \<and> Abs example_git ''a.go'' = Inr ''/tmp/a.go'' \<and> Wait example_git ''/tmp/a.go'' = Some ''exit status 128''
   \<and> PrintResult example_presentation example_git
        [\<lparr>Path = ''a.go'',
          Lines = [\<lparr>line_n = 1, line_tag = ''TODO'', line_text = ''fix this''\<rparr>,
                   \<lparr>line_n = 12, line_tag = ''NOTE'', line_text = ''y''\<rparr>]\<rparr>]
        \<lparr>printed = [], wgResult_done = 0\<rparr>
       = (None, \<lparr>printed = [''a.go'', ''[Line  1] TODO fix this'', ''[Line 12] NOTE y'', ''''],
                 wgResult_done = 1\<rparr>)"
proof -
  let ?r = "\<lparr>Path = ''a.go'',
          Lines = [\<lparr>line_n = 1, line_tag = ''TODO'', line_text = ''fix this''\<rparr>,
                   \<lparr>line_n = 12, line_tag = ''NOTE'', line_text = ''y''\<rparr>]\<rparr>"
  have b: "BlameFile example_git (Path ?r) = Inl (OsError ''git blame failed: exit status 128'')"
    by (simp add: BlameFile_def example_git_def parseGitBlame_def append_last_def)
  have w: "Abs example_git ''a.go'' = Inr ''/tmp/a.go''" "Wait example_git ''/tmp/a.go'' = Some ''exit status 128''"
    by (simp_all add: example_git_def)
  have l: "map (line_without_blame example_presentation ?r) (Lines ?r)
      = [''[Line  1] TODO fix this'', ''[Line 12] NOTE y'']"
    by (simp add: line_without_blame_def MaxLineNumber_def Sprint_1 [unfolded One_nat_def] Sprint_12
        example_presentation_def)
  have "PrintResult example_presentation example_git [?r] \<lparr>printed = [], wgResult_done = 0\<rparr>
       = (None, \<lparr>printed = [''a.go'', ''[Line  1] TODO fix this'', ''[Line 12] NOTE y'', ''''],
                 wgResult_done = 1\<rparr>)"
    using blame_failure_is_soft [of example_git ?r "OsError ''git blame failed: exit status 128''"
        example_presentation "[]" "\<lparr>printed = [], wgResult_done = 0\<rparr>"] b l
    by (simp add: example_presentation_def del: PrintResult.simps(2))
  then show ?thesis using b w by simp
qed

end
